theory Spec2Isabelle
  imports Complex_Main "HOL-Library.Multiset"
begin

section \<open>Common conventions\<close>

text \<open>
  The development embeds functions of \<^verbatim>\<open>reversible.py\<close>. Tensor entries are
  modelled by exact real numbers, so every statement below is about the arithmetic the
  code asks for, before any floating-point rounding. Python integers are \<^typ>\<open>int\<close>,
  lengths and indices that cannot be negative are \<^typ>\<open>nat\<close>. Every exception the
  code can raise is a value of \<open>error\<close>, returned on the left of a sum. \<open>NonFinite\<close> is
  not an exception: it marks a result that holds NaN or an infinity, which the real
  numbers do not have.
\<close>

datatype error = AssertionError | IndexError | RuntimeError | ValueError | ZeroDivisionError
  | NonFinite

section \<open>Weights per sample (\<^verbatim>\<open>get_weights_per_sample\<close>)\<close>

text \<open>
  An autograd variable holding one scalar: its numeric (forward) value \<open>data\<close> and the
  derivative \<open>dw\<close> of that value with respect to the cluster weight it was read from.
  Dividing by a Python float (a detached number) scales both components.
\<close>

record var =
  data :: real
  dw :: real

definition leaf :: "real \<Rightarrow> var" where
  "leaf w = \<lparr>data = w, dw = 1\<rparr>"

definition div_float :: "var \<Rightarrow> real \<Rightarrow> var" where
  "div_float v c = \<lparr>data = data v / c, dw = dw v / c\<rparr>"

definition expand :: "var \<Rightarrow> int \<Rightarrow> var list" where
  "expand v n = replicate (nat n) v"

text \<open>\<^verbatim>\<open>th.cat\<close> along the first axis; an empty list of tensors is refused.\<close>

definition th_cat :: "'a list list \<Rightarrow> error + 'a list" where
  "th_cat parts = (if parts = [] then Inl RuntimeError else Inr (concat parts))"

text \<open>
  The loop \<^verbatim>\<open>for i_cluster in range(len(sizes))\<close>: the remaining sizes, the current
  index and the list \<^verbatim>\<open>all_weights\<close> built so far. The weight is read before the size
  is tested, so an index beyond the weight vector raises even for a zero size.
\<close>

fun weights_loop :: "real list \<Rightarrow> int list \<Rightarrow> nat \<Rightarrow> var list list \<Rightarrow> error + var list list" where
  "weights_loop weights_per_cluster [] i_cluster all_weights = Inr all_weights"
| "weights_loop weights_per_cluster (sz # rest) i_cluster all_weights =
     (if length weights_per_cluster \<le> i_cluster then Inl IndexError
      else let weight = leaf (weights_per_cluster ! i_cluster) in
        if sz = 0 then weights_loop weights_per_cluster rest (Suc i_cluster) all_weights
        else if \<not> 0 < sz then Inl AssertionError
        else let np_weight = data weight in
          if \<not> 0 \<le> np_weight then Inl AssertionError
          else let new_weight = (if 0 < np_weight then div_float weight np_weight else weight)
               in weights_loop weights_per_cluster rest (Suc i_cluster)
                    (all_weights @ [expand new_weight sz]))"

definition get_weights_per_sample :: "real list \<Rightarrow> int list \<Rightarrow> error + var list" where
  "get_weights_per_sample weights_per_cluster sizes =
     (case weights_loop weights_per_cluster sizes 0 [] of
        Inl e \<Rightarrow> Inl e
      | Inr all_weights \<Rightarrow> th_cat all_weights)"

section \<open>Empirical probabilities of the order statistics\<close>

text \<open>
  \<^verbatim>\<open>th.linspace(start, end, steps)\<close>: \<open>steps\<close> points from \<open>start\<close> to \<open>end\<close>
  inclusive with the common step \<open>(end - start) / (steps - 1)\<close>; one step gives
  \<open>[start]\<close>.
\<close>

definition linspace :: "real \<Rightarrow> real \<Rightarrow> nat \<Rightarrow> real list" where
  "linspace start end steps =
     (if steps = 1 then [start]
      else map (\<lambda>i. start + real i * ((end - start) / real (steps - 1))) [0..<steps])"

text \<open>
  The expression \<^verbatim>\<open>th.linspace(1 / (n_samples), 1 - (1 / (n_samples)), n_samples)\<close>
  of \<^verbatim>\<open>transport_loss_per_class\<close> and of
  \<^verbatim>\<open>analytical_l2_cdf_loss_given_sorted_samples\<close>. The Python division raises for
  \<open>n_samples = 0\<close>.
\<close>

definition empirical_cdf :: "nat \<Rightarrow> error + real list" where
  "empirical_cdf n_samples =
     (if n_samples = 0 then Inl ZeroDivisionError
      else Inr (linspace (1 / real n_samples) (1 - 1 / real n_samples) n_samples))"

section \<open>Sampling the mixture (\<^verbatim>\<open>sample_mixture_gaussian\<close>)\<close>

text \<open>
  A matrix is the list of its rows. The random generator is the stream of standard-normal
  draws still to come; \<^verbatim>\<open>th.randn(n, d)\<close> takes the next \<open>n * d\<close> of them, row by row,
  and leaves the rest.
\<close>

type_synonym matrix = "real list list"

type_synonym rng = "nat \<Rightarrow> real"

definition randn :: "nat \<Rightarrow> nat \<Rightarrow> rng \<Rightarrow> matrix \<times> rng" where
  "randn n d g = (map (\<lambda>k. map (\<lambda>j. g (k * d + j)) [0..<d]) [0..<n], \<lambda>i. g (i + n * d))"

text \<open>
  An elementwise operation on two rows under torch's broadcasting: equal lengths go
  entry by entry, a row of length 1 is stretched, anything else is refused.
\<close>

definition broadcast2 :: "(real \<Rightarrow> real \<Rightarrow> real) \<Rightarrow> real list \<Rightarrow> real list \<Rightarrow> error + real list" where
  "broadcast2 f xs ys =
     (if length xs = length ys then Inr (map2 f xs ys)
      else if length xs = 1 then Inr (map (f (xs ! 0)) ys)
      else if length ys = 1 then Inr (map (\<lambda>x. f x (ys ! 0)) xs)
      else Inl RuntimeError)"

fun map_err :: "('a \<Rightarrow> error + 'b) \<Rightarrow> 'a list \<Rightarrow> error + 'b list" where
  "map_err f [] = Inr []"
| "map_err f (x # xs) =
     (case f x of
        Inl e \<Rightarrow> Inl e
      | Inr y \<Rightarrow> (case map_err f xs of Inl e \<Rightarrow> Inl e | Inr ys \<Rightarrow> Inr (y # ys)))"

text \<open>\<^verbatim>\<open>samples * std.unsqueeze(0) + mean.unsqueeze(0)\<close>, row by row.\<close>

definition scale_shift :: "matrix \<Rightarrow> real list \<Rightarrow> real list \<Rightarrow> error + matrix" where
  "scale_shift samples std mean =
     map_err (\<lambda>row. case broadcast2 (*) row std of
                       Inl e \<Rightarrow> Inl e
                     | Inr scaled \<Rightarrow> broadcast2 (+) scaled mean) samples"

text \<open>
  The loop over \<^verbatim>\<open>zip(sizes_per_cluster, means_per_dim, stds_per_dim)\<close>, with the
  generator and the list \<^verbatim>\<open>parts\<close> threaded through.
\<close>

fun sample_loop :: "(int \<times> real list \<times> real list) list \<Rightarrow> nat \<Rightarrow> rng \<Rightarrow> matrix list
                      \<Rightarrow> error + (matrix list \<times> rng)" where
  "sample_loop [] n_dims g parts = Inr (parts, g)"
| "sample_loop ((n_samples, mean, std) # rest) n_dims g parts =
     (if n_samples = 0 then sample_loop rest n_dims g parts
      else if \<not> 0 < n_samples then Inl AssertionError
      else case randn (nat n_samples) n_dims g of
             (samples, g') \<Rightarrow>
               (case scale_shift samples std mean of
                  Inl e \<Rightarrow> Inl e
                | Inr samples' \<Rightarrow> sample_loop rest n_dims g' (parts @ [samples'])))"

text \<open>\<^verbatim>\<open>means_per_dim.size()[1]\<close>: the number of columns.\<close>

definition n_cols :: "matrix \<Rightarrow> nat" where
  "n_cols m = (case m of [] \<Rightarrow> 0 | row # _ \<Rightarrow> length row)"

definition sample_mixture_gaussian :: "int list \<Rightarrow> matrix \<Rightarrow> matrix \<Rightarrow> rng \<Rightarrow> error + (matrix \<times> rng)" where
  "sample_mixture_gaussian sizes_per_cluster means_per_dim stds_per_dim g =
     (let n_dims = n_cols means_per_dim in
      case sample_loop (zip sizes_per_cluster (zip means_per_dim stds_per_dim)) n_dims g [] of
        Inl e \<Rightarrow> Inl e
      | Inr (parts, g') \<Rightarrow>
          (case th_cat parts of Inl e \<Rightarrow> Inl e | Inr all_samples \<Rightarrow> Inr (all_samples, g')))"

text \<open>
  What the loop is expected to produce for one cluster: \<open>n\<close> rows, each a row of draws
  scaled by the cluster's stds and shifted by its means.
\<close>

definition cluster_block :: "nat \<Rightarrow> nat \<Rightarrow> real list \<Rightarrow> real list \<Rightarrow> rng \<Rightarrow> matrix" where
  "cluster_block n d mean std g =
     map (\<lambda>k. map (\<lambda>j. g (k * d + j) * std ! j + mean ! j) [0..<d]) [0..<n]"

fun cluster_blocks :: "(int \<times> real list \<times> real list) list \<Rightarrow> nat \<Rightarrow> rng \<Rightarrow> matrix list" where
  "cluster_blocks [] d g = []"
| "cluster_blocks ((n, mean, std) # rest) d g =
     cluster_block (nat n) d mean std g # cluster_blocks rest d (\<lambda>i. g (i + nat n * d))"

section \<open>Unit directions (\<^verbatim>\<open>norm_and_var_directions\<close>)\<close>

text \<open>
  A division of tensors does not raise: \<open>0 / 0\<close> is NaN and \<open>x / 0\<close> is infinite. Real
  numbers have neither, so a quotient is \<open>None\<close> when the divisor is zero, and a tensor
  with such an entry is \<open>None\<close> as a whole.
\<close>

definition fdiv :: "real \<Rightarrow> real \<Rightarrow> real option" where
  "fdiv x y = (if y = 0 then None else Some (x / y))"

fun those_all :: "'a option list \<Rightarrow> 'a list option" where
  "those_all [] = Some []"
| "those_all (x # xs) =
     (case x of None \<Rightarrow> None
      | Some y \<Rightarrow> (case those_all xs of None \<Rightarrow> None | Some ys \<Rightarrow> Some (y # ys)))"

text \<open>\<^verbatim>\<open>th.norm(row, p=2)\<close>\<close>

definition norm2 :: "real list \<Rightarrow> real" where
  "norm2 row = sqrt (sum_list (map (\<lambda>x. x * x) row))"

definition norm_and_var_directions :: "matrix \<Rightarrow> matrix option" where
  "norm_and_var_directions directions =
     those_all (map (\<lambda>row. let norm_factor = norm2 row
                            in those_all (map (\<lambda>x. fdiv x norm_factor) row)) directions)"

section \<open>The projection at the end of a training step\<close>

text \<open>
  The mixture parameters a training step updates. The weight tensor is \<open>None\<close> when it
  holds NaN. Everything a step does before the projection (the forward pass, the loss,
  \<^verbatim>\<open>backward\<close> and the optimizers' \<^verbatim>\<open>step\<close>) is the work of the network and of
  the autograd library; its effect on the mixture is the parameter \<open>optimizer_steps\<close>,
  an arbitrary update.
\<close>

record mixture =
  mix_means_per_dim :: matrix
  mix_stds_per_dim :: matrix
  mix_weights_per_cluster :: "real list option"

definition clamp_min :: "real \<Rightarrow> real \<Rightarrow> real" where
  "clamp_min lo x = (if x < lo then lo else x)"

text \<open>
  \<^verbatim>\<open>weights_per_cluster.data.clamp_(min=0)\<close> followed by
  \<^verbatim>\<open>weights_per_cluster.data.div_(th.sum(weights_per_cluster.data))\<close>. Clamping keeps
  a NaN, and a sum or a quotient with a NaN is NaN. After the clamp the sum is zero only
  when every entry is zero, and then every quotient is \<open>0 / 0\<close>.
\<close>

definition project_weights :: "real list option \<Rightarrow> real list option" where
  "project_weights weights =
     (case weights of
        None \<Rightarrow> None
      | Some ws \<Rightarrow>
          (let clamped = map (clamp_min 0) ws
           in those_all (map (\<lambda>w. fdiv w (sum_list clamped)) clamped)))"

text \<open>\<^verbatim>\<open>stds_per_dim.data.clamp_(min=1e-4)\<close>\<close>

definition project_stds :: "matrix \<Rightarrow> matrix" where
  "project_stds stds = map (map (clamp_min (1 / 10000))) stds"

text \<open>
  The tail of \<^verbatim>\<open>train_on_batch\<close>: the optimizers step, the weights are clamped and
  renormalised, the stds are clamped.
\<close>

definition train_on_batch :: "(mixture \<Rightarrow> mixture) \<Rightarrow> mixture \<Rightarrow> mixture" where
  "train_on_batch optimizer_steps m =
     (let m1 = optimizer_steps m;
          m2 = m1\<lparr>mix_weights_per_cluster := project_weights (mix_weights_per_cluster m1)\<rparr>
      in m2\<lparr>mix_stds_per_dim := project_stds (mix_stds_per_dim m2)\<rparr>)"

text \<open>
  The tail of \<^verbatim>\<open>train_on_batch_per_class\<close>: the same weight projection; the line
  clamping the stds is commented out there, so the stds stay as the optimizer left them.
\<close>

definition train_on_batch_per_class :: "(mixture \<Rightarrow> mixture) \<Rightarrow> mixture \<Rightarrow> mixture" where
  "train_on_batch_per_class optimizer_steps m =
     (let m1 = optimizer_steps m
      in m1\<lparr>mix_weights_per_cluster := project_weights (mix_weights_per_cluster m1)\<rparr>)"

text \<open>
  A plain gradient-descent update of the weights and stds, \<open>p := p - lr * grad\<close>, for
  trying the steps on concrete numbers.
\<close>

definition sgd_steps :: "real \<Rightarrow> real list \<Rightarrow> matrix \<Rightarrow> mixture \<Rightarrow> mixture" where
  "sgd_steps lr grad_weights grad_stds m =
     m\<lparr>mix_weights_per_cluster :=
          map_option (\<lambda>ws. map2 (\<lambda>w g. w - lr * g) ws grad_weights) (mix_weights_per_cluster m),
       mix_stds_per_dim :=
          map2 (\<lambda>row grow. map2 (\<lambda>s g. s - lr * g) row grow) (mix_stds_per_dim m) grad_stds\<rparr>"

section \<open>Batches (\<^verbatim>\<open>get_exact_size_batches\<close>, \<^verbatim>\<open>get_batches_equal_classes\<close>)\<close>

text \<open>
  \<^verbatim>\<open>rng.shuffle\<close> belongs to NumPy: it is the parameter \<open>shuffle\<close>, which takes the
  generator's state and a list and returns the shuffled list and the new state.
\<close>

type_synonym 'g shuffle = "'g \<Rightarrow> nat list \<Rightarrow> nat list \<times> 'g"

text \<open>The values of \<^verbatim>\<open>range(i, stop, step)\<close> for a start \<open>i \<ge> 0\<close> and a positive step.\<close>

function range_from :: "nat \<Rightarrow> int \<Rightarrow> nat \<Rightarrow> nat list" where
  "range_from i stop step =
     (if step = 0 then []
      else if int i < stop then i # range_from (i + step) stop step
      else [])"
  by pat_completeness auto
termination
  by (relation "measure (\<lambda>(i, stop, step). nat (stop - int i))") auto

declare range_from.simps [simp del]

text \<open>The slices \<^verbatim>\<open>xs[a:b]\<close> for \<open>0 \<le> a\<close>, \<open>0 \<le> b\<close>, and \<^verbatim>\<open>xs[:k]\<close> for any integer \<open>k\<close>.\<close>

definition py_slice :: "'a list \<Rightarrow> nat \<Rightarrow> nat \<Rightarrow> 'a list" where
  "py_slice xs a b = take (b - a) (drop a xs)"

definition py_upto :: "'a list \<Rightarrow> int \<Rightarrow> 'a list" where
  "py_upto xs k = (if k < 0 then take (length xs - nat (- k)) xs else take (nat k) xs)"

definition get_exact_size_batches :: "'g shuffle \<Rightarrow> nat \<Rightarrow> 'g \<Rightarrow> nat \<Rightarrow> error + (nat list list \<times> 'g)" where
  "get_exact_size_batches shuffle n_trials rng batch_size =
     (case shuffle rng [0..<n_trials] of
        (i_trials, rng') \<Rightarrow>
          if batch_size = 0 then Inl ValueError
          else
            let starts = range_from 0 (int n_trials - int batch_size) batch_size;
                batches = map (\<lambda>i_trial. py_slice i_trials i_trial (i_trial + batch_size)) starts;
                i_trial = (if starts = [] then 0 else last starts) + batch_size;
                last_batch = drop i_trial i_trials;
                n_remain = int batch_size - int (length last_batch);
                last_batch = last_batch @ py_upto i_trials n_remain
            in Inr (batches @ [last_batch], rng'))"

text \<open>\<^verbatim>\<open>this_cluster_indices[b]\<close>: indexing an array by an array of positions.\<close>

definition take_indices :: "nat list \<Rightarrow> nat list \<Rightarrow> error + nat list" where
  "take_indices xs b =
     (if list_all (\<lambda>j. j < length xs) b then Inr (map (\<lambda>j. xs ! j) b) else Inl IndexError)"

text \<open>
  \<^verbatim>\<open>np.concatenate(batches_per_cluster, axis=1)\<close>: every class's list of batches becomes
  a two-dimensional array (its batches must have one common length), the arrays must
  have the same number of rows, and row \<open>i\<close> of the result joins the \<open>i\<close>-th batches of
  all classes.
\<close>

definition np_concatenate_axis1 :: "nat list list list \<Rightarrow> error + nat list list" where
  "np_concatenate_axis1 arrays =
     (case arrays of
        [] \<Rightarrow> Inl ValueError
      | first # _ \<Rightarrow>
          if list_all (\<lambda>a. a \<noteq> [] \<and> list_all (\<lambda>b. length b = length (hd a)) a) arrays
             \<and> list_all (\<lambda>a. length a = length first) arrays
          then Inr (map (\<lambda>i. concat (map (\<lambda>a. a ! i) arrays)) [0..<length first])
          else Inl ValueError)"

text \<open>The loop \<^verbatim>\<open>for i_cluster in range(n_classes)\<close> over the remaining class labels.\<close>

fun cluster_loop :: "'g shuffle \<Rightarrow> int list \<Rightarrow> nat list \<Rightarrow> 'g \<Rightarrow> nat \<Rightarrow> nat list list list
                       \<Rightarrow> error + (nat list list list \<times> 'g)" where
  "cluster_loop shuffle targets [] rng batch_size batches_per_cluster =
     Inr (batches_per_cluster, rng)"
| "cluster_loop shuffle targets (i_cluster # rest) rng batch_size batches_per_cluster =
     (let n_examples = length (filter (\<lambda>t. t = int i_cluster) targets) in
      case get_exact_size_batches shuffle n_examples rng batch_size of
        Inl e \<Rightarrow> Inl e
      | Inr (examples_per_batch, rng') \<Rightarrow>
          let this_cluster_indices =
                filter (\<lambda>i. targets ! i = int i_cluster) [0..<length targets]
          in case map_err (take_indices this_cluster_indices) examples_per_batch of
               Inl e \<Rightarrow> Inl e
             | Inr examples_per_batch \<Rightarrow>
                 cluster_loop shuffle targets rest rng' batch_size
                   (batches_per_cluster @ [examples_per_batch]))"

definition get_batches_equal_classes :: "'g shuffle \<Rightarrow> int list \<Rightarrow> nat \<Rightarrow> 'g \<Rightarrow> nat
                                           \<Rightarrow> error + (nat list list \<times> 'g)" where
  "get_batches_equal_classes shuffle targets n_classes rng batch_size =
     (case cluster_loop shuffle targets [0..<n_classes] rng batch_size [] of
        Inl e \<Rightarrow> Inl e
      | Inr (batches_per_cluster, rng') \<Rightarrow>
          (case np_concatenate_axis1 batches_per_cluster of
             Inl e \<Rightarrow> Inl e
           | Inr batches \<Rightarrow> Inr (batches, rng')))"

text \<open>The number of examples of class \<open>c\<close> among the indices of a batch.\<close>

definition class_count :: "int list \<Rightarrow> nat \<Rightarrow> nat list \<Rightarrow> nat" where
  "class_count targets c batch = length (filter (\<lambda>i. targets ! i = int c) batch)"

text \<open>A shuffle that reverses the list, for trying the functions on concrete inputs.\<close>

definition rev_shuffle :: "unit shuffle" where
  "rev_shuffle rng xs = (rev xs, rng)"

text \<open>The number of examples of class \<open>c\<close>: \<^verbatim>\<open>np.sum(targets == c)\<close>.\<close>

definition n_examples :: "int list \<Rightarrow> nat \<Rightarrow> nat" where
  "n_examples targets c = length (filter (\<lambda>t. t = int c) targets)"

text \<open>
  What one pass of the class loop adds for class \<open>c\<close>: its number of batches, the size of
  each batch, and that every index in them is an example of class \<open>c\<close>.
\<close>

definition class_batches_ok :: "int list \<Rightarrow> nat \<Rightarrow> nat \<Rightarrow> nat list list \<Rightarrow> bool" where
  "class_batches_ok targets B c bs \<longleftrightarrow>
     length bs = (length (filter (\<lambda>t. t = int c) targets) - 1) div B + 1
     \<and> (\<forall>b \<in> set bs. length b = B
            \<and> (\<forall>i \<in> set b. i < length targets \<and> targets ! i = int c))"

section \<open>Integer sizes from weights (\<^verbatim>\<open>sizes_from_weights\<close>)\<close>

text \<open>\<^verbatim>\<open>np.round\<close> rounds to the nearest integer and a half to the even neighbour.\<close>

definition round_half_even :: "real \<Rightarrow> int" where
  "round_half_even x =
     (let f = \<lfloor>x\<rfloor>; d = x - of_int f
      in if d < 1 / 2 then f else if 1 / 2 < d then f + 1 else if even f then f else f + 1)"

text \<open>
  \<^verbatim>\<open>np.flatnonzero(mask)[np.argsort(key[mask])[0]]\<close>: among the positions the mask
  selects, given in increasing order, the one with the least key, the earliest of them
  on a tie. \<open>None\<close> when the mask selects nothing, where reading entry 0 of the empty
  \<^verbatim>\<open>argsort\<close> result raises.
\<close>

fun pick_min :: "(nat \<Rightarrow> real) \<Rightarrow> nat list \<Rightarrow> nat option" where
  "pick_min key [] = None"
| "pick_min key (i # rest) =
     (case pick_min key rest of
        None \<Rightarrow> Some i
      | Some j \<Rightarrow> if key i \<le> key j then Some i else Some j)"

text \<open>
  The state of the two correction loops: \<^verbatim>\<open>diff_with_half\<close>, \<^verbatim>\<open>rounded\<close> and
  \<^verbatim>\<open>n_total\<close>.
\<close>

type_synonym sizes_state = "real list \<times> int list \<times> int"

text \<open>\<^verbatim>\<open>while n_total > size\<close>: take one from the entry whose remainder is least above a half.\<close>

function dec_loop :: "int \<Rightarrow> sizes_state \<Rightarrow> error + sizes_state" where
  "dec_loop size' (diff_with_half, rounded, n_total) =
     (if size' < n_total then
        let positions = [0..<length rounded];
            mask = filter (\<lambda>i. 0 < diff_with_half ! i \<and> 0 < rounded ! i) positions;
            mask = (if mask = [] then filter (\<lambda>i. 0 < rounded ! i) positions else mask)
        in case pick_min (\<lambda>i. diff_with_half ! i) mask of
             None \<Rightarrow> Inl IndexError
           | Some i_min \<Rightarrow>
               dec_loop size'
                 (diff_with_half[i_min := diff_with_half ! i_min + 1 / 2],
                  rounded[i_min := rounded ! i_min - 1],
                  n_total - 1)
      else Inr (diff_with_half, rounded, n_total))"
  by pat_completeness auto
termination
  by (relation "measure (\<lambda>(size', diff_with_half, rounded, n_total). nat (n_total - size'))") auto

declare dec_loop.simps [simp del]

text \<open>\<^verbatim>\<open>while n_total < size\<close>: add one to the entry whose remainder is closest below a half.\<close>

function inc_loop :: "int \<Rightarrow> sizes_state \<Rightarrow> error + sizes_state" where
  "inc_loop size' (diff_with_half, rounded, n_total) =
     (if n_total < size' then
        let positions = [0..<length rounded];
            mask = filter (\<lambda>i. diff_with_half ! i < 0 \<and> 0 < rounded ! i) positions;
            mask = (if mask = [] then filter (\<lambda>i. 0 < rounded ! i) positions else mask)
        in case pick_min (\<lambda>i. - (diff_with_half ! i)) mask of
             None \<Rightarrow> Inl IndexError
           | Some i_min \<Rightarrow>
               inc_loop size'
                 (diff_with_half[i_min := diff_with_half ! i_min - 1 / 2],
                  rounded[i_min := rounded ! i_min + 1],
                  n_total + 1)
      else Inr (diff_with_half, rounded, n_total))"
  by pat_completeness auto
termination
  by (relation "measure (\<lambda>(size', diff_with_half, rounded, n_total). nat (size' - n_total))") auto

declare inc_loop.simps [simp del]

text \<open>
  The first rounding: \<^verbatim>\<open>rounded\<close> and \<^verbatim>\<open>diff_with_half\<close> from the normalised
  weights.
\<close>

definition fractional_sizes :: "int \<Rightarrow> real list \<Rightarrow> real list" where
  "fractional_sizes size' weights = map (\<lambda>w. w / sum_list weights * of_int size') weights"

text \<open>
  A zero sum of weights makes the normalised weights NaN or infinite in NumPy without
  raising; the model stops there with \<open>NonFinite\<close>.
\<close>

definition sizes_from_weights :: "int \<Rightarrow> real list \<Rightarrow> error + int list" where
  "sizes_from_weights size' weights =
     (if sum_list weights = 0 then Inl NonFinite
      else
        let rounded = map round_half_even (fractional_sizes size' weights);
            diff_with_half = map (\<lambda>f. frac f - 1 / 2) (fractional_sizes size' weights);
            n_total = sum_list rounded
        in case dec_loop size' (diff_with_half, rounded, n_total) of
             Inl e \<Rightarrow> Inl e
           | Inr st \<Rightarrow>
               (case inc_loop size' st of
                  Inl e \<Rightarrow> Inl e
                | Inr (diff_with_half, rounded, n_total) \<Rightarrow>
                    if sum_list rounded \<noteq> size' then Inl AssertionError else Inr rounded))"

section \<open>The mixture CDF along directions (\<^verbatim>\<open>multi_directions_gaussian_cdfs\<close>)\<close>

text \<open>
  \<^verbatim>\<open>th.erf\<close> is the error function, here by its power series
  \<open>erf x = 2 / sqrt pi * (\<Sum>n. (-1)^n * x^(2n+1) / (n! * (2n+1)))\<close>, written as \<open>x\<close> times
  a series in \<open>x * x\<close>.
\<close>

definition erf_coeff :: "nat \<Rightarrow> real" where
  "erf_coeff n = (- 1) ^ n / (fact n * real (2 * n + 1))"

definition erf_series :: "real \<Rightarrow> real" where
  "erf_series t = (\<Sum>n. erf_coeff n * t ^ n)"

definition erf :: "real \<Rightarrow> real" where
  "erf x = 2 / sqrt pi * (x * erf_series (x * x))"

text \<open>
  One entry of the result: the sum over the clusters of
  \<^verbatim>\<open>0.5 * (1 + erf((x - mean) / (std * sqrt(2)))) * weight\<close>, for one direction's means
  and (clamped) stds, the normalised weights and one point \<open>x\<close>.
\<close>

definition gaussian_cdf_point :: "real list \<Rightarrow> real list \<Rightarrow> real list \<Rightarrow> real \<Rightarrow> real" where
  "gaussian_cdf_point means stds weights x =
     sum_list (map (\<lambda>(mean, std, weight). 1 / 2 * (1 + erf ((x - mean) / (std * sqrt 2))) * weight)
                 (zip means (zip stds weights)))"

text \<open>
  \<open>x\<close> is directions \<open>\<times>\<close> points, \<open>means\<close> and \<open>stds\<close> are directions \<open>\<times>\<close> clusters,
  \<open>weights\<close> has one entry per cluster. Shapes that do not fit are refused (torch would
  stretch a dimension of size 1, which the model does not follow). A zero sum of weights
  gives NaN or infinite entries: \<open>NonFinite\<close>.
\<close>

definition multi_directions_gaussian_cdfs :: "matrix \<Rightarrow> matrix \<Rightarrow> matrix \<Rightarrow> real list \<Rightarrow> error + matrix" where
  "multi_directions_gaussian_cdfs x means stds weights =
     (if \<not> (length means = length x \<and> length stds = length x
             \<and> list_all (\<lambda>row. length row = length weights) means
             \<and> list_all (\<lambda>row. length row = length weights) stds)
      then Inl RuntimeError
      else if sum_list weights = 0 then Inl NonFinite
      else
        let eps = 1 / 1000000;
            stds = map (map (clamp_min eps)) stds;
            weights = map (\<lambda>w. w / sum_list weights) weights
        in Inr (map (\<lambda>(x_row, means_row, stds_row).
                       map (gaussian_cdf_point means_row stds_row weights) x_row)
                  (zip x (zip means stds))))"

section \<open>The reversible model parts\<close>

text \<open>
  A tensor of four dimensions is the list of its batch entries, each the list of its
  channels, each the list of its rows: \<open>t ! n ! c ! h ! w\<close>. \<open>size0\<close> to \<open>size3\<close> are
  \<^verbatim>\<open>t.size()[0]\<close> to \<^verbatim>\<open>t.size()[3]\<close>, read off the first entries; a tensor has no
  dimension of size zero here.
\<close>

type_synonym tensor = "real list list list list"

definition size0 :: "tensor \<Rightarrow> nat" where
  "size0 t = length t"

definition size1 :: "tensor \<Rightarrow> nat" where
  "size1 t = (case t of [] \<Rightarrow> 0 | img # _ \<Rightarrow> length img)"

definition size2 :: "tensor \<Rightarrow> nat" where
  "size2 t = (case t of [] \<Rightarrow> 0 | img # _ \<Rightarrow> (case img of [] \<Rightarrow> 0 | ch # _ \<Rightarrow> length ch))"

definition size3 :: "tensor \<Rightarrow> nat" where
  "size3 t = (case t of [] \<Rightarrow> 0 | img # _ \<Rightarrow>
                (case img of [] \<Rightarrow> 0 | ch # _ \<Rightarrow> (case ch of [] \<Rightarrow> 0 | row # _ \<Rightarrow> length row)))"

text \<open>The tensor of a given shape with the entry \<open>f n c h w\<close> at every position.\<close>

definition tensor_of :: "nat \<Rightarrow> nat \<Rightarrow> nat \<Rightarrow> nat \<Rightarrow> (nat \<Rightarrow> nat \<Rightarrow> nat \<Rightarrow> nat \<Rightarrow> real) \<Rightarrow> tensor" where
  "tensor_of n_batch n_chans height width f =
     map (\<lambda>n. map (\<lambda>c. map (\<lambda>h. map (\<lambda>w. f n c h w) [0..<width]) [0..<height]) [0..<n_chans])
       [0..<n_batch]"

text \<open>A nested list is a tensor of shape \<open>(N, C, H, W)\<close>: rectangular, no empty dimension.\<close>

definition has_shape :: "nat \<Rightarrow> nat \<Rightarrow> nat \<Rightarrow> nat \<Rightarrow> tensor \<Rightarrow> bool" where
  "has_shape n_batch n_chans height width t \<longleftrightarrow>
     0 < n_batch \<and> 0 < n_chans \<and> 0 < height \<and> 0 < width \<and> length t = n_batch
     \<and> list_all (\<lambda>img. length img = n_chans
          \<and> list_all (\<lambda>ch. length ch = height \<and> list_all (\<lambda>row. length row = width) ch) img) t"

text \<open>\<^verbatim>\<open>th.zeros(n, c, h, w)\<close>\<close>

definition zeros :: "nat \<Rightarrow> nat \<Rightarrow> nat \<Rightarrow> nat \<Rightarrow> tensor" where
  "zeros n_batch n_chans height width = tensor_of n_batch n_chans height width (\<lambda>n c h w. 0)"

text \<open>The channel slices \<^verbatim>\<open>x[:, :b]\<close>, \<^verbatim>\<open>x[:, a:]\<close> and \<^verbatim>\<open>x[:, a:b]\<close>.\<close>

definition chans_upto :: "nat \<Rightarrow> tensor \<Rightarrow> tensor" where
  "chans_upto b t = map (take b) t"

definition chans_from :: "nat \<Rightarrow> tensor \<Rightarrow> tensor" where
  "chans_from a t = map (drop a) t"

definition chans_range :: "nat \<Rightarrow> nat \<Rightarrow> tensor \<Rightarrow> tensor" where
  "chans_range a b t = map (\<lambda>img. take (b - a) (drop a img)) t"

text \<open>
  \<^verbatim>\<open>th.cat(ts, dim=1)\<close>: the list must not be empty and the tensors must agree in every
  dimension but the channels.
\<close>

definition cat_chans :: "tensor list \<Rightarrow> error + tensor" where
  "cat_chans ts =
     (case ts of
        [] \<Rightarrow> Inl RuntimeError
      | first # _ \<Rightarrow>
          if list_all (\<lambda>t. size0 t = size0 first \<and> size2 t = size2 first \<and> size3 t = size3 first) ts
          then Inr (map (\<lambda>n. concat (map (\<lambda>t. t ! n) ts)) [0..<size0 first])
          else Inl RuntimeError)"

text \<open>
  \<^verbatim>\<open>th.chunk(x, 2, dim=1)\<close>: pieces of \<open>ceil(C / 2)\<close> channels, so one channel gives a
  single piece and three channels give pieces of two and one.
\<close>

definition th_chunk2 :: "tensor \<Rightarrow> tensor list" where
  "th_chunk2 t =
     (let split_size = (size1 t + 1) div 2
      in if size1 t \<le> split_size then [t]
         else [chans_range 0 split_size t, chans_range split_size (size1 t) t])"

text \<open>
  Elementwise sum and difference of two tensors. Shapes that differ are refused (torch
  would stretch a dimension of size 1, which the model does not follow).
\<close>

definition same_shape :: "tensor \<Rightarrow> tensor \<Rightarrow> bool" where
  "same_shape a b \<longleftrightarrow>
     size0 a = size0 b \<and> size1 a = size1 b \<and> size2 a = size2 b \<and> size3 a = size3 b"

definition t_add :: "tensor \<Rightarrow> tensor \<Rightarrow> error + tensor" where
  "t_add a b =
     (if same_shape a b then Inr (map2 (map2 (map2 (map2 (+)))) a b) else Inl RuntimeError)"

definition t_sub :: "tensor \<Rightarrow> tensor \<Rightarrow> error + tensor" where
  "t_sub a b =
     (if same_shape a b then Inr (map2 (map2 (map2 (map2 (-)))) a b) else Inl RuntimeError)"

text \<open>The slice \<^verbatim>\<open>xs[i::s]\<close> of a list, and \<^verbatim>\<open>x[:, :, i::s0, j::s1]\<close> of a tensor.\<close>

definition stride_slice :: "nat \<Rightarrow> nat \<Rightarrow> 'a list \<Rightarrow> 'a list" where
  "stride_slice i s xs = map (\<lambda>k. xs ! (i + k * s)) [0..<(length xs - i + s - 1) div s]"

definition subsample :: "nat \<Rightarrow> nat \<Rightarrow> nat \<Rightarrow> nat \<Rightarrow> tensor \<Rightarrow> tensor" where
  "subsample i j s0 s1 t = map (map (\<lambda>ch. map (stride_slice j s1) (stride_slice i s0 ch))) t"

text \<open>
  The assignment \<^verbatim>\<open>previous[:, :, i::s0, j::s1] = src\<close>: \<open>src\<close> must have the shape of
  the slice it replaces (a shape torch could stretch is refused).
\<close>

definition assign_strided :: "tensor \<Rightarrow> nat \<Rightarrow> nat \<Rightarrow> nat \<Rightarrow> nat \<Rightarrow> tensor \<Rightarrow> error + tensor" where
  "assign_strided previous i j s0 s1 src =
     (if same_shape (subsample i j s0 s1 previous) src
      then Inr (tensor_of (size0 previous) (size1 previous) (size2 previous) (size3 previous)
                  (\<lambda>n c h w. if i \<le> h \<and> (h - i) mod s0 = 0 \<and> j \<le> w \<and> (w - j) mod s1 = 0
                              then src ! n ! c ! ((h - i) div s0) ! ((w - j) div s1)
                              else previous ! n ! c ! h ! w))
      else Inl RuntimeError)"

text \<open>
  The two kinds of stage: a \<^verbatim>\<open>ReversibleBlock\<close> with its functions \<open>F\<close> and \<open>G\<close>, and a
  \<^verbatim>\<open>SubsampleSplitter\<close> with its stride pair and \<^verbatim>\<open>chunk_chans_first\<close>. A feature model is
  one stage or an \<^verbatim>\<open>nn.Sequential\<close> of stages.
\<close>

datatype stage =
  ReversibleBlock "tensor \<Rightarrow> tensor" "tensor \<Rightarrow> tensor"
| SubsampleSplitter "nat \<times> nat" bool

datatype feature_model = Single stage | Sequential "stage list"

text \<open>\<^verbatim>\<open>ReversibleBlock.forward\<close> and \<^verbatim>\<open>SubsampleSplitter.forward\<close>\<close>

fun forward_stage :: "stage \<Rightarrow> tensor \<Rightarrow> error + tensor" where
  "forward_stage (ReversibleBlock F G) x =
     (let n_chans = size1 x in
      if n_chans mod 2 \<noteq> 0 then Inl AssertionError
      else
        let x1 = chans_upto (n_chans div 2) x;
            x2 = chans_from (n_chans div 2) x
        in case t_add (F x1) x2 of
             Inl e \<Rightarrow> Inl e
           | Inr y1 \<Rightarrow>
               (case t_add (G y1) x1 of
                  Inl e \<Rightarrow> Inl e
                | Inr y2 \<Rightarrow> cat_chans [y1, y2]))"
| "forward_stage (SubsampleSplitter stride chunk_chans_first) x =
     (let xs = (if chunk_chans_first then th_chunk2 x else [x]);
          new_x = concat (map (\<lambda>one_x.
                    concat (map (\<lambda>i_stride.
                      map (\<lambda>j_stride. subsample i_stride j_stride (fst stride) (snd stride) one_x)
                        [0..<snd stride])
                      [0..<fst stride])) xs)
      in cat_chans new_x)"

fun forward :: "stage list \<Rightarrow> tensor \<Rightarrow> error + tensor" where
  "forward [] x = Inr x"
| "forward (module' # rest) x =
     (case forward_stage module' x of Inl e \<Rightarrow> Inl e | Inr y \<Rightarrow> forward rest y)"

text \<open>
  The assignments of \<^verbatim>\<open>invert\<close> for one piece of the features: the pairs
  \<open>(i_stride, j_stride)\<close> still to do and the counter \<^verbatim>\<open>cur_chan\<close>.
\<close>

fun assign_loop :: "tensor \<Rightarrow> nat \<Rightarrow> nat \<times> nat \<Rightarrow> (nat \<times> nat) list \<Rightarrow> nat \<Rightarrow> tensor \<Rightarrow> error + tensor" where
  "assign_loop one_chan_features n_chans_before stride [] cur_chan previous_features =
     Inr previous_features"
| "assign_loop one_chan_features n_chans_before stride ((i_stride, j_stride) # rest) cur_chan
       previous_features =
     (case assign_strided previous_features i_stride j_stride (fst stride) (snd stride)
             (chans_range (cur_chan * n_chans_before) (cur_chan * n_chans_before + n_chans_before)
                one_chan_features) of
        Inl e \<Rightarrow> Inl e
      | Inr previous_features \<Rightarrow>
          assign_loop one_chan_features n_chans_before stride rest (cur_chan + 1) previous_features)"

text \<open>The body of \<^verbatim>\<open>for one_chan_features in chan_features\<close>.\<close>

definition invert_piece :: "nat \<times> nat \<Rightarrow> tensor \<Rightarrow> error + tensor" where
  "invert_piece stride one_chan_features =
     (let n_chans_before = size1 one_chan_features div (fst stride * snd stride);
          previous_features =
            zeros (size0 one_chan_features) n_chans_before
              (size2 one_chan_features * fst stride) (size3 one_chan_features * snd stride)
      in assign_loop one_chan_features n_chans_before stride
           (List.product [0..<fst stride] [0..<snd stride]) 0 previous_features)"

text \<open>One pass of the loop of \<^verbatim>\<open>invert\<close>, for one module.\<close>

fun invert_stage :: "stage \<Rightarrow> tensor \<Rightarrow> error + tensor" where
  "invert_stage (ReversibleBlock F G) features =
     (let n_chans = size1 features;
          y1 = chans_upto (n_chans div 2) features;
          y2 = chans_from (n_chans div 2) features
      in case t_sub y2 (G y1) of
           Inl e \<Rightarrow> Inl e
         | Inr x1 \<Rightarrow>
             (case t_sub y1 (F x1) of
                Inl e \<Rightarrow> Inl e
              | Inr x2 \<Rightarrow> cat_chans [x1, x2]))"
| "invert_stage (SubsampleSplitter stride chunk_chans_first) features =
     (if fst stride * snd stride = 0 then Inl ZeroDivisionError
      else
        let n_all_chans_before = size1 features div (fst stride * snd stride);
            chan_features = (if chunk_chans_first \<and> 1 < n_all_chans_before
                             then th_chunk2 features else [features])
        in case map_err (invert_piece stride) chan_features of
             Inl e \<Rightarrow> Inl e
           | Inr all_previous_features \<Rightarrow> cat_chans all_previous_features)"

fun invert_modules :: "stage list \<Rightarrow> tensor \<Rightarrow> error + tensor" where
  "invert_modules [] features = Inr features"
| "invert_modules (module' # rest) features =
     (case invert_stage module' features of
        Inl e \<Rightarrow> Inl e
      | Inr features \<Rightarrow> invert_modules rest features)"

definition invert :: "feature_model \<Rightarrow> tensor \<Rightarrow> error + tensor" where
  "invert feature_model features =
     (let children = (case feature_model of Single module' \<Rightarrow> [module'] | Sequential modules \<Rightarrow> modules)
      in invert_modules (rev children) features)"

text \<open>
  \<open>F\<close> (or \<open>G\<close>) returns a tensor of shape \<open>(N, C, H, W)\<close> for every tensor of that shape.
\<close>

definition keeps_shape :: "nat \<Rightarrow> nat \<Rightarrow> nat \<Rightarrow> nat \<Rightarrow> (tensor \<Rightarrow> tensor) \<Rightarrow> bool" where
  "keeps_shape N C H W F \<longleftrightarrow> (\<forall>t. has_shape N C H W t \<longrightarrow> has_shape N C H W (F t))"

text \<open>
  A shape fits a pipeline: every \<^verbatim>\<open>ReversibleBlock\<close> gets an even number of channels and
  its \<open>F\<close> and \<open>G\<close> keep the shape of a half; every \<^verbatim>\<open>SubsampleSplitter\<close> gets spatial
  sizes its strides divide and, where it chunks the channels first, an even number of
  channels, a single channel or strides of product 1.
\<close>

fun compatible :: "stage list \<Rightarrow> nat \<Rightarrow> nat \<Rightarrow> nat \<Rightarrow> nat \<Rightarrow> bool" where
  "compatible [] N C H W = True"
| "compatible (ReversibleBlock F G # rest) N C H W =
     (even C \<and> keeps_shape N (C div 2) H W F \<and> keeps_shape N (C div 2) H W G
      \<and> compatible rest N C H W)"
| "compatible (SubsampleSplitter stride chunk_chans_first # rest) N C H W =
     (0 < fst stride \<and> 0 < snd stride \<and> fst stride dvd H \<and> snd stride dvd W
      \<and> (chunk_chans_first \<longrightarrow> even C \<or> C = 1 \<or> fst stride * snd stride = 1)
      \<and> compatible rest N (fst stride * snd stride * C) (H div fst stride) (W div snd stride))"

text \<open>The channels \<^verbatim>\<open>forward\<close> makes of one piece, by entries.\<close>

definition piece_entries :: "nat \<Rightarrow> nat \<Rightarrow> nat \<Rightarrow> (nat \<Rightarrow> nat \<Rightarrow> nat \<Rightarrow> nat \<Rightarrow> real)
                               \<Rightarrow> nat \<Rightarrow> nat \<Rightarrow> nat \<Rightarrow> nat \<Rightarrow> real" where
  "piece_entries s0 s1 C f n c h w =
     f n (c mod C) ((c div C) div s1 + h * s0) ((c div C) mod s1 + w * s1)"

text \<open>The state of the assignment loop after the first \<open>k\<close> assignments, by entries.\<close>

definition partly_assigned :: "nat \<Rightarrow> nat \<Rightarrow> nat \<Rightarrow> (nat \<Rightarrow> nat \<Rightarrow> nat \<Rightarrow> nat \<Rightarrow> real) \<Rightarrow> nat
                                 \<Rightarrow> nat \<Rightarrow> nat \<Rightarrow> nat \<Rightarrow> nat \<Rightarrow> real" where
  "partly_assigned s0 s1 C y k n c h w =
     (if (h mod s0) * s1 + w mod s1 < k
      then y n (((h mod s0) * s1 + w mod s1) * C + c) (h div s0) (w div s1) else 0)"

section \<open>Properties of \<^verbatim>\<open>get_weights_per_sample\<close>\<close>

lemma weights_loop_positive:
  assumes "\<forall>w \<in> set ws. 0 < w"
    and "\<forall>s \<in> set sizes. 0 \<le> s"
    and "i + length sizes \<le> length ws"
  shows "weights_loop ws sizes i acc =
           Inr (acc @ map (\<lambda>(s, w). replicate (nat s) \<lparr>data = 1, dw = 1 / w\<rparr>)
                        (filter (\<lambda>(s, w). s \<noteq> 0) (zip sizes (drop i ws))))"
  using assms
proof (induction sizes arbitrary: i acc)
  case Nil
  then show ?case by simp
next
  case (Cons s rest)
  from Cons.prems(3) have i: "i < length ws" by simp
  then have dr: "drop i ws = ws ! i # drop (Suc i) ws"
    by (simp add: Cons_nth_drop_Suc)
  from i Cons.prems(1) have pos: "0 < ws ! i" by simp
  from Cons.prems(2) have s0: "0 \<le> s" and rest0: "\<forall>s \<in> set rest. 0 \<le> s" by simp_all
  from Cons.prems(3) have len: "Suc i + length rest \<le> length ws" by simp
  note IH = Cons.IH [OF Cons.prems(1) rest0 len]
  show ?case
  proof (cases "s = 0")
    case True
    with i show ?thesis by (simp add: IH dr leaf_def)
  next
    case False
    with s0 have "0 < s" by simp
    with i pos False show ?thesis
      by (simp add: IH dr leaf_def div_float_def expand_def)
  qed
qed

lemma length_concat_blocks:
  "length (concat (map (\<lambda>(s, w). replicate (nat s) (f w)) (filter (\<lambda>(s, w). s \<noteq> 0) zs)))
     = (\<Sum>(s, w) \<leftarrow> zs. nat s)"
  by (induction zs) (auto simp: length_concat)

lemma sum_list_nat_fst_zip:
  "length sizes \<le> length ws \<Longrightarrow> \<forall>s \<in> set sizes. (0::int) \<le> s \<Longrightarrow>
     (\<Sum>(s, w) \<leftarrow> zip sizes ws. nat s) = nat (sum_list sizes)"
proof (induction sizes arbitrary: ws)
  case Nil
  then show ?case by simp
next
  case (Cons s rest)
  then obtain w ws' where ws: "ws = w # ws'" by (cases ws) auto
  from Cons.prems have "0 \<le> s" and r: "\<forall>s \<in> set rest. 0 \<le> s" by simp_all
  then have "0 \<le> sum_list rest" by (simp add: sum_list_nonneg)
  with Cons \<open>0 \<le> s\<close> r ws show ?case by (simp add: nat_add_distrib)
qed

lemma concat_blocks_filter:
  "concat (map (\<lambda>(s, w). replicate (nat s) (f w)) (filter (\<lambda>(s, w). s \<noteq> 0) zs))
     = concat (map (\<lambda>(s, w). replicate (nat s) (f w)) zs)"
  by (induction zs) auto

text \<open>
  Claim C9. For a weight vector with all entries strictly positive and a list of sizes
  (counts, one per cluster, none negative) with positive total,
  \<^verbatim>\<open>get_weights_per_sample\<close> returns exactly this vector: for every cluster in order,
  as many entries as the cluster's size, each with forward value 1 and with the reciprocal
  of that cluster's own weight as the derivative that remains (the weight divided by its
  own detached copy). So the length is the sum of the sizes and every entry has forward
  value exactly 1.
\<close>

theorem get_weights_per_sample_all_one:
  assumes "\<forall>w \<in> set weights_per_cluster. 0 < w"
    and "\<forall>s \<in> set sizes. 0 \<le> s"
    and "0 < sum_list sizes"
    and "length sizes \<le> length weights_per_cluster"
  shows "\<exists>out. get_weights_per_sample weights_per_cluster sizes = Inr out
           \<and> out = concat (map (\<lambda>(s, w). replicate (nat s) \<lparr>data = 1, dw = 1 / w\<rparr>)
                              (zip sizes weights_per_cluster))
           \<and> length out = nat (sum_list sizes)
           \<and> (\<forall>v \<in> set out. data v = 1 \<and> (\<exists>w \<in> set weights_per_cluster. dw v = 1 / w))"
proof -
  let ?zs = "filter (\<lambda>(s, w). s \<noteq> 0) (zip sizes weights_per_cluster)"
  let ?blocks = "map (\<lambda>(s, w). replicate (nat s) \<lparr>data = 1, dw = 1 / w\<rparr>) ?zs"
  let ?out = "concat (map (\<lambda>(s, w). replicate (nat s) \<lparr>data = 1, dw = 1 / w\<rparr>)
                        (zip sizes weights_per_cluster))"
  have loop: "weights_loop weights_per_cluster sizes 0 [] = Inr ?blocks"
    using weights_loop_positive [OF assms(1) assms(2), of 0 "[]"] assms(4) by simp
  have out: "concat ?blocks = ?out"
    by (rule concat_blocks_filter)
  have len: "length (concat ?blocks) = nat (sum_list sizes)"
    using length_concat_blocks [of "\<lambda>w. \<lparr>data = 1, dw = 1 / w\<rparr>" "zip sizes weights_per_cluster"]
      sum_list_nat_fst_zip [OF assms(4) assms(2)] by simp
  from assms(3) len have ne: "?blocks \<noteq> []" by auto
  have ent: "\<forall>v \<in> set (concat ?blocks). data v = 1 \<and> (\<exists>w \<in> set weights_per_cluster. dw v = 1 / w)"
    by (auto dest: set_zip_rightD)
  have res: "get_weights_per_sample weights_per_cluster sizes = Inr (concat ?blocks)"
    using loop ne by (simp add: get_weights_per_sample_def th_cat_def)
  from res len ent show ?thesis unfolding out by blast
qed

theorem get_weights_per_sample_all_one_witness:
  "get_weights_per_sample [1/4, 3/4, 1/2] [1, 0, 2]
     = Inr [\<lparr>data = 1, dw = 4\<rparr>, \<lparr>data = 1, dw = 2\<rparr>, \<lparr>data = 1, dw = 2\<rparr>]
   \<and> (\<exists>out. get_weights_per_sample [1/4, 3/4, 1/2] [1, 0, 2] = Inr out
           \<and> out = concat (map (\<lambda>(s, w). replicate (nat s) \<lparr>data = 1, dw = 1 / w\<rparr>)
                              (zip [1, 0, 2] [1/4, 3/4, 1/2]))
           \<and> length out = nat (sum_list [1, 0, 2])
           \<and> (\<forall>v \<in> set out. data v = 1 \<and> (\<exists>w \<in> set [1/4, 3/4, 1/2 :: real]. dw v = 1 / w)))"
proof -
  have a: "\<forall>w \<in> set [1/4, 3/4, 1/2 :: real]. 0 < w" by simp
  have b: "\<forall>s \<in> set [1, 0, 2 :: int]. 0 \<le> s" by simp
  have c: "0 < sum_list [1, 0, 2 :: int]" by simp
  have d: "length [1, 0, 2 :: int] \<le> length [1/4, 3/4, 1/2 :: real]" by simp
  have e: "get_weights_per_sample [1/4, 3/4, 1/2] [1, 0, 2]
             = Inr [\<lparr>data = 1, dw = 4\<rparr>, \<lparr>data = 1, dw = 2\<rparr>, \<lparr>data = 1, dw = 2\<rparr>]"
    by (simp add: get_weights_per_sample_def th_cat_def leaf_def div_float_def expand_def
        numeral_2_eq_2 Let_def)
  from e get_weights_per_sample_all_one [OF a b c d] show ?thesis by blast
qed

section \<open>Properties of the empirical probabilities\<close>

lemma linspace_nth:
  "2 \<le> n \<Longrightarrow> k < n \<Longrightarrow> linspace a b n ! k = a + real k * ((b - a) / real (n - 1))"
  by (simp add: linspace_def)

lemma length_linspace: "length (linspace a b n) = n"
  by (simp add: linspace_def)

text \<open>
  Claim C6. For \<open>n \<ge> 2\<close> samples the vector of empirical probabilities has \<open>n\<close>
  entries; it starts at \<open>1/n\<close> and ends at \<open>1 - 1/n\<close>; consecutive entries differ by the
  same step; entry \<open>k\<close> is the point \<open>k/(n-1)\<close> of the unit grid rescaled to the interval
  from \<open>1/n\<close> to \<open>1 - 1/n\<close>; and every entry lies in that interval, so none is 0 or 1.
\<close>

theorem empirical_cdf_evenly_spaced:
  assumes "2 \<le> n"
  shows "\<exists>ps. empirical_cdf n = Inr ps \<and> length ps = n
           \<and> ps ! 0 = 1 / real n \<and> ps ! (n - 1) = 1 - 1 / real n
           \<and> (\<forall>k. Suc k < n \<longrightarrow> ps ! Suc k - ps ! k = (1 - 2 / real n) / real (n - 1))
           \<and> (\<forall>k < n. ps ! k = 1 / real n + (real k / real (n - 1)) * ((1 - 1 / real n) - 1 / real n))
           \<and> (\<forall>p \<in> set ps. 1 / real n \<le> p \<and> p \<le> 1 - 1 / real n \<and> p \<noteq> 0 \<and> p \<noteq> 1)"
proof -
  let ?a = "1 / real n" and ?b = "1 - 1 / real n"
  let ?ps = "linspace ?a ?b n"
  from assms have n0: "n \<noteq> 0" and n1: "0 < real (n - 1)" and rn: "0 < real n" by simp_all
  have e: "empirical_cdf n = Inr ?ps" using n0 by (simp add: empirical_cdf_def)
  have nth: "\<And>k. k < n \<Longrightarrow> ?ps ! k = ?a + real k * ((?b - ?a) / real (n - 1))"
    using assms by (simp add: linspace_nth)
  have first: "?ps ! 0 = ?a" using nth [of 0] assms by simp
  have last: "?ps ! (n - 1) = ?b" using nth [of "n - 1"] assms n1 by simp
  have step: "\<forall>k. Suc k < n \<longrightarrow> ?ps ! Suc k - ?ps ! k = (1 - 2 / real n) / real (n - 1)"
  proof (intro allI impI)
    fix k assume k: "Suc k < n"
    then have "k < n" by simp
    have ba: "?b - ?a = 1 - 2 / real n" by simp
    from k \<open>k < n\<close> have "?ps ! Suc k - ?ps ! k
        = (real (Suc k) - real k) * ((?b - ?a) / real (n - 1))"
      by (simp only: nth left_diff_distrib) simp
    also have "\<dots> = (1 - 2 / real n) / real (n - 1)" by (simp only: ba) simp
    finally show "?ps ! Suc k - ?ps ! k = (1 - 2 / real n) / real (n - 1)" .
  qed
  have form: "\<forall>k < n. ?ps ! k = ?a + (real k / real (n - 1)) * (?b - ?a)"
    by (simp add: nth)
  have ab: "?a \<le> ?b"
  proof -
    from assms have "2 \<le> real n" by simp
    then have "2 / real n \<le> 1" using rn by (simp add: divide_le_eq)
    then show ?thesis by simp
  qed
  have a0: "0 < ?a" using rn by simp
  have b1: "?b < 1" using rn by simp
  have bounds: "\<forall>p \<in> set ?ps. ?a \<le> p \<and> p \<le> ?b \<and> p \<noteq> 0 \<and> p \<noteq> 1"
  proof
    fix p assume "p \<in> set ?ps"
    then obtain k where k: "k < n" and p: "p = ?ps ! k"
      by (auto simp: in_set_conv_nth length_linspace)
    let ?t = "real k / real (n - 1)"
    from k have "real k \<le> real (n - 1)" by simp
    then have t1: "?t \<le> 1" using n1 by (simp add: divide_le_eq)
    have t0: "0 \<le> ?t" by simp
    have pk: "p = ?a + ?t * (?b - ?a)" using p k form by simp
    have lo: "?a \<le> p" using pk t0 ab by simp
    have "?t * (?b - ?a) \<le> 1 * (?b - ?a)" using t1 ab by (intro mult_right_mono) simp_all
    then have hi: "p \<le> ?b" using pk by simp
    from a0 lo have "0 < p" by (rule less_le_trans)
    moreover from hi b1 have "p < 1" by (rule le_less_trans)
    ultimately show "?a \<le> p \<and> p \<le> ?b \<and> p \<noteq> 0 \<and> p \<noteq> 1" using lo hi by simp
  qed
  from e first last step form bounds show ?thesis by (simp add: length_linspace)
qed

theorem empirical_cdf_evenly_spaced_witness:
  "empirical_cdf 4 = Inr [1/4, 5/12, 7/12, 3/4]
     \<and> (\<exists>ps. empirical_cdf 4 = Inr ps \<and> length ps = 4 \<and> ps ! 0 = 1 / 4 \<and> ps ! 3 = 3 / 4)"
proof -
  have h: "(2::nat) \<le> 4" by simp
  have e: "empirical_cdf 4 = Inr [1/4, 5/12, 7/12, 3/4]"
    by (simp add: empirical_cdf_def linspace_def upt_rec)
  from e empirical_cdf_evenly_spaced [OF h] show ?thesis by simp
qed

section \<open>Properties of the projection\<close>

lemma those_all_map_Some: "those_all (map (\<lambda>x. Some (f x)) xs) = Some (map f xs)"
  by (induction xs) simp_all

lemma those_all_fdiv:
  "c \<noteq> 0 \<Longrightarrow> those_all (map (\<lambda>x. fdiv x c) xs) = Some (map (\<lambda>x. x / c) xs)"
  by (induction xs) (simp_all add: fdiv_def)

lemma those_all_fdiv_zero:
  "xs \<noteq> [] \<Longrightarrow> those_all (map (\<lambda>x. fdiv x 0) xs) = None"
  by (cases xs) (simp_all add: fdiv_def)

lemma clamp_min_ge: "lo \<le> clamp_min lo x"
  by (simp add: clamp_min_def)

lemma sum_list_clamped_pos:
  "\<exists>w \<in> set ws. 0 < w \<Longrightarrow> 0 < sum_list (map (clamp_min 0) ws)"
proof (induction ws)
  case Nil
  then show ?case by simp
next
  case (Cons a ws)
  have nn: "0 \<le> sum_list (map (clamp_min 0) ws)"
    by (rule sum_list_nonneg) (auto simp: clamp_min_ge)
  show ?case
  proof (cases "0 < a")
    case True
    then have "0 < clamp_min 0 a" by (simp add: clamp_min_def)
    with nn show ?thesis by simp
  next
    case False
    with Cons.prems have "\<exists>w \<in> set ws. 0 < w" by auto
    then have "0 < sum_list (map (clamp_min 0) ws)" by (rule Cons.IH)
    moreover have "0 \<le> clamp_min 0 a" by (rule clamp_min_ge)
    ultimately show ?thesis by simp
  qed
qed

lemma sum_list_divide: "sum_list (map (\<lambda>x. x / c) xs) = sum_list xs / (c::real)"
  by (induction xs) (simp_all add: add_divide_distrib)

text \<open>
  When the optimizers leave at least one weight strictly positive, the projection gives
  weights that are all non-negative and sum to 1.
\<close>

lemma project_weights_simplex:
  assumes "\<exists>w \<in> set ws. 0 < w"
  shows "\<exists>ws'. project_weights (Some ws) = Some ws' \<and> length ws' = length ws
            \<and> sum_list ws' = 1 \<and> (\<forall>w \<in> set ws'. 0 \<le> w)"
proof -
  let ?c = "map (clamp_min 0) ws"
  let ?s = "sum_list ?c"
  from assms have pos: "0 < ?s" by (rule sum_list_clamped_pos)
  then have p: "project_weights (Some ws) = Some (map (\<lambda>w. w / ?s) ?c)"
    by (simp add: project_weights_def Let_def those_all_fdiv del: map_map)
  have "sum_list (map (\<lambda>w. w / ?s) ?c) = 1"
    using pos by (simp only: sum_list_divide) simp
  moreover have "\<forall>w \<in> set (map (\<lambda>w. w / ?s) ?c). 0 \<le> w"
    using pos by (auto simp: clamp_min_ge)
  ultimately show ?thesis using p by simp
qed

lemma train_steps_simplex:
  assumes "mix_weights_per_cluster (optimizer_steps m) = Some ws" and "\<exists>w \<in> set ws. 0 < w"
  shows "\<exists>ws'. mix_weights_per_cluster (train_on_batch optimizer_steps m) = Some ws'
            \<and> mix_weights_per_cluster (train_on_batch_per_class optimizer_steps m) = Some ws'
            \<and> sum_list ws' = 1 \<and> (\<forall>w \<in> set ws'. 0 \<le> w)"
  using project_weights_simplex [OF assms(2)] assms(1)
  by (auto simp: train_on_batch_def train_on_batch_per_class_def Let_def)

text \<open>
  When the optimizers leave no weight strictly positive, the clamp zeroes them all and
  the renormalisation divides zero by zero.
\<close>

lemma project_weights_all_nonpositive:
  assumes "ws \<noteq> []" and "\<forall>w \<in> set ws. w \<le> 0"
  shows "project_weights (Some ws) = None"
proof -
  from assms(2) have z: "map (clamp_min 0) ws = map (\<lambda>w. 0) ws"
    by (auto simp: clamp_min_def)
  have s0: "sum_list (map (clamp_min 0) ws) = 0" unfolding z by simp
  from assms(1) have ne: "map (clamp_min 0) ws \<noteq> []" by simp
  show ?thesis
    using those_all_fdiv_zero [OF ne]
    by (simp add: project_weights_def Let_def s0 del: map_map)
qed

text \<open>
  Claim C3, at a failing input. Two weights \<open>0.5, 0.5\<close> and a gradient step of \<open>1\<close>
  on each: both weights are negative after the optimizer, the clamp makes them zero, the
  sum is zero and the division leaves NaN, in \<^verbatim>\<open>train_on_batch\<close> and in
  \<^verbatim>\<open>train_on_batch_per_class\<close> alike.
\<close>

theorem train_step_weights_nan:
  "mix_weights_per_cluster
     (train_on_batch (sgd_steps 1 [1, 1] [[0], [0]])
        \<lparr>mix_means_per_dim = [[0], [1]], mix_stds_per_dim = [[1], [1]],
         mix_weights_per_cluster = Some [1/2, 1/2]\<rparr>) = None
   \<and> mix_weights_per_cluster
     (train_on_batch_per_class (sgd_steps 1 [1, 1] [[0], [0]])
        \<lparr>mix_means_per_dim = [[0], [1]], mix_stds_per_dim = [[1], [1]],
         mix_weights_per_cluster = Some [1/2, 1/2]\<rparr>) = None"
  by (simp add: train_on_batch_def train_on_batch_per_class_def sgd_steps_def
      project_weights_def clamp_min_def fdiv_def Let_def)

lemma project_stds_floor:
  "\<forall>row \<in> set (project_stds stds). \<forall>s \<in> set row. 1 / 10000 \<le> s"
proof (intro ballI)
  fix row s assume "row \<in> set (project_stds stds)" and s: "s \<in> set row"
  then obtain row0 where "row = map (clamp_min (1 / 10000)) row0"
    by (auto simp: project_stds_def)
  with s obtain s0 where "s = clamp_min (1 / 10000) s0" by auto
  then show "1 / 10000 \<le> s" by (simp only: clamp_min_ge)
qed

text \<open>
  Claim C5, as amended. After every \<^verbatim>\<open>train_on_batch\<close> step, whatever the optimizers
  did, every entry of the stds is at least \<open>1e-4\<close>.
\<close>

theorem train_on_batch_stds_floor:
  "\<forall>row \<in> set (mix_stds_per_dim (train_on_batch optimizer_steps m)). \<forall>s \<in> set row. 1 / 10000 \<le> s"
proof -
  have e: "mix_stds_per_dim (train_on_batch optimizer_steps m)
             = project_stds (mix_stds_per_dim (optimizer_steps m))"
    by (simp add: train_on_batch_def Let_def)
  show ?thesis unfolding e by (rule project_stds_floor)
qed

theorem train_on_batch_stds_floor_witness:
  "mix_stds_per_dim
     (train_on_batch (sgd_steps 1 [0, 0] [[1], [0]])
        \<lparr>mix_means_per_dim = [[0], [1]], mix_stds_per_dim = [[1/2], [1]],
         mix_weights_per_cluster = Some [1/2, 1/2]\<rparr>) = [[1/10000], [1]]
   \<and> (1::real) / 10000 \<le> 1 / 10000"
proof -
  let ?m = "\<lparr>mix_means_per_dim = [[0], [1]], mix_stds_per_dim = [[1/2], [1]],
         mix_weights_per_cluster = Some [1/2, 1/2]\<rparr>"
  let ?o = "sgd_steps 1 [0, 0] [[1], [0]]"
  have e: "mix_stds_per_dim (train_on_batch ?o ?m) = [[1/10000], [1]]"
    by (simp add: train_on_batch_def sgd_steps_def project_stds_def clamp_min_def Let_def)
  from train_on_batch_stds_floor [of ?o ?m]
  have "\<forall>s \<in> set (hd (mix_stds_per_dim (train_on_batch ?o ?m))). 1 / 10000 \<le> s"
    unfolding e by simp
  with e show ?thesis by simp
qed

text \<open>
  Claim C5, as stated, fails for \<^verbatim>\<open>train_on_batch_per_class\<close>: a gradient step that
  takes a std from \<open>1/2\<close> to \<open>-1/2\<close> leaves it there.
\<close>

theorem train_on_batch_per_class_stds_counterexample:
  "mix_stds_per_dim
     (train_on_batch_per_class (sgd_steps 1 [0, 0] [[1], [0]])
        \<lparr>mix_means_per_dim = [[0], [1]], mix_stds_per_dim = [[1/2], [1]],
         mix_weights_per_cluster = Some [1/2, 1/2]\<rparr>) = [[- 1/2], [1]]"
  by (simp add: train_on_batch_per_class_def sgd_steps_def Let_def)

section \<open>Properties of \<^verbatim>\<open>norm_and_var_directions\<close>\<close>

lemma norm2_nonneg: "0 \<le> norm2 row"
  unfolding norm2_def by (intro real_sqrt_ge_zero sum_list_nonneg) auto

lemma norm2_scaled:
  assumes "norm2 row \<noteq> 0"
  shows "norm2 (map (\<lambda>x. x / norm2 row) row) = 1"
proof -
  let ?n = "norm2 row"
  let ?q = "sum_list (map (\<lambda>x. x * x) row)"
  have q0: "0 \<le> ?q" by (rule sum_list_nonneg) auto
  have nn: "?n * ?n = ?q" using q0 by (simp add: norm2_def)
  have "sum_list (map (\<lambda>x. (x / ?n) * (x / ?n)) row) = sum_list (map (\<lambda>x. (x * x) / (?n * ?n)) row)"
    by simp
  also have "\<dots> = ?q / (?n * ?n)"
    using sum_list_divide [of "?n * ?n" "map (\<lambda>x. x * x) row"] by (simp add: comp_def)
  also have "\<dots> = 1" using assms by (simp only: nn [symmetric]) simp
  finally show ?thesis by (simp add: norm2_def comp_def)
qed

lemma norm_and_var_directions_Some:
  assumes "\<forall>row \<in> set directions. norm2 row \<noteq> 0"
  shows "norm_and_var_directions directions
           = Some (map (\<lambda>row. map (\<lambda>x. x / norm2 row) row) directions)"
  using assms
  by (induction directions) (simp_all add: norm_and_var_directions_def Let_def those_all_fdiv)

text \<open>
  Claim C10. For a direction matrix whose rows all have nonzero Euclidean norm,
  \<^verbatim>\<open>norm_and_var_directions\<close> returns a matrix whose rows all have norm 1, and applying
  it to that matrix returns the same matrix.
\<close>

theorem norm_and_var_directions_idempotent:
  assumes "\<forall>row \<in> set directions. norm2 row \<noteq> 0"
  shows "\<exists>normed. norm_and_var_directions directions = Some normed
           \<and> (\<forall>row \<in> set normed. norm2 row = 1)
           \<and> norm_and_var_directions normed = Some normed"
proof -
  let ?d = "map (\<lambda>row. map (\<lambda>x. x / norm2 row) row) directions"
  have first: "norm_and_var_directions directions = Some ?d"
    using assms by (rule norm_and_var_directions_Some)
  have unit: "\<forall>row \<in> set ?d. norm2 row = 1"
    using assms by (auto simp: norm2_scaled)
  then have "\<forall>row \<in> set ?d. norm2 row \<noteq> 0" by simp
  then have "norm_and_var_directions ?d = Some (map (\<lambda>row. map (\<lambda>x. x / norm2 row) row) ?d)"
    by (rule norm_and_var_directions_Some)
  also have "map (\<lambda>row. map (\<lambda>x. x / norm2 row) row) ?d = ?d"
  proof (rule map_idI)
    fix row assume "row \<in> set ?d"
    with unit have "norm2 row = 1" by blast
    then show "map (\<lambda>x. x / norm2 row) row = row" by simp
  qed
  finally show ?thesis using first unit by blast
qed

theorem norm_and_var_directions_idempotent_witness:
  "norm_and_var_directions [[3, 4], [0, 2]] = Some [[3/5, 4/5], [0, 1]]
     \<and> norm_and_var_directions [[3/5, 4/5], [0, 1]] = Some [[3/5, 4/5], [0, 1]]"
proof -
  have s25: "sqrt 25 = 5" using real_sqrt_abs [of 5] by simp
  have n1: "norm2 [3, 4] = 5" by (simp add: norm2_def s25)
  have n2: "norm2 [0, 2] = 2" by (simp add: norm2_def)
  have h: "\<forall>row \<in> set [[3, 4], [0, 2 :: real]]. norm2 row \<noteq> 0" by (simp add: n1 n2)
  have e: "norm_and_var_directions [[3, 4], [0, 2]] = Some [[3/5, 4/5], [0, 1]]"
    by (simp add: norm_and_var_directions_def Let_def n1 n2 fdiv_def)
  from norm_and_var_directions_idempotent [OF h] e show ?thesis by simp
qed

section \<open>Properties of \<^verbatim>\<open>sample_mixture_gaussian\<close>\<close>

lemma map_err_Inr:
  "(\<And>x. x \<in> set xs \<Longrightarrow> f x = Inr (h x)) \<Longrightarrow> map_err f xs = Inr (map h xs)"
  by (induction xs) simp_all

lemma map2_upt_nth:
  "length ys = d \<Longrightarrow> map2 f (map h [0..<d]) ys = map (\<lambda>j. f (h j) (ys ! j)) [0..<d]"
  by (rule nth_equalityI) simp_all

lemma scale_shift_randn:
  assumes "length std = d" and "length mean = d"
  shows "scale_shift (fst (randn n d g)) std mean = Inr (cluster_block n d mean std g)"
proof -
  have row: "\<And>k. (case broadcast2 (*) (map (\<lambda>j. g (k * d + j)) [0..<d]) std of
                      Inl e \<Rightarrow> Inl e
                    | Inr scaled \<Rightarrow> broadcast2 (+) scaled mean)
                = Inr (map (\<lambda>j. g (k * d + j) * std ! j + mean ! j) [0..<d])"
    using assms by (simp add: broadcast2_def map2_upt_nth)
  have "scale_shift (map (\<lambda>k. map (\<lambda>j. g (k * d + j)) [0..<d]) [0..<n]) std mean
          = Inr (map (\<lambda>row. map (\<lambda>j. row ! j * std ! j + mean ! j) [0..<d])
                  (map (\<lambda>k. map (\<lambda>j. g (k * d + j)) [0..<d]) [0..<n]))"
    unfolding scale_shift_def
  proof (rule map_err_Inr)
    fix r assume "r \<in> set (map (\<lambda>k. map (\<lambda>j. g (k * d + j)) [0..<d]) [0..<n])"
    then obtain k where r: "r = map (\<lambda>j. g (k * d + j)) [0..<d]" by auto
    show "(case broadcast2 (*) r std of Inl e \<Rightarrow> Inl e | Inr scaled \<Rightarrow> broadcast2 (+) scaled mean)
            = Inr (map (\<lambda>j. r ! j * std ! j + mean ! j) [0..<d])"
      unfolding r row by simp
  qed
  then show ?thesis by (simp add: randn_def cluster_block_def comp_def)
qed

lemma cluster_block_empty_iff: "cluster_block n d mean std g = [] \<longleftrightarrow> n = 0"
  by (simp add: cluster_block_def)

lemma length_cluster_block: "length (cluster_block n d mean std g) = n"
  by (simp add: cluster_block_def)

lemma sample_loop_blocks:
  assumes "\<forall>(n, mean, std) \<in> set zs. 0 \<le> n \<and> length mean = d \<and> length std = d"
  shows "sample_loop zs d g parts =
           Inr (parts @ filter (\<lambda>b. b \<noteq> []) (cluster_blocks zs d g),
                \<lambda>i. g (i + (\<Sum>(n, mean, std) \<leftarrow> zs. nat n) * d))"
  using assms
proof (induction zs arbitrary: g parts)
  case Nil
  then show ?case by simp
next
  case (Cons z zs)
  obtain n mean std where z: "z = (n, mean, std)" by (cases z) auto
  from Cons.prems z have n0: "0 \<le> n" and lm: "length mean = d" and ls: "length std = d"
    and rest: "\<forall>(n, mean, std) \<in> set zs. 0 \<le> n \<and> length mean = d \<and> length std = d"
    by simp_all
  note IH = Cons.IH [OF rest]
  show ?case
  proof (cases "n = 0")
    case True
    then show ?thesis by (simp add: z IH cluster_block_def)
  next
    case False
    with n0 have pos: "0 < n" by simp
    then have ne: "cluster_block (nat n) d mean std g \<noteq> []"
      by (simp add: cluster_block_empty_iff)
    have r: "randn (nat n) d g = (fst (randn (nat n) d g), \<lambda>i. g (i + nat n * d))"
      by (simp add: randn_def)
    have ss: "scale_shift (fst (randn (nat n) d g)) std mean
                = Inr (cluster_block (nat n) d mean std g)"
      using ls lm by (rule scale_shift_randn)
    let ?g' = "\<lambda>i. g (i + nat n * d)"
    let ?b = "cluster_block (nat n) d mean std g"
    let ?S = "\<Sum>(n, mean, std) \<leftarrow> zs. nat n"
    have "sample_loop (z # zs) d g parts = sample_loop zs d ?g' (parts @ [?b])"
      using pos False by (subst z, subst sample_loop.simps, subst r) (simp add: ss)
    also have "\<dots> = Inr ((parts @ [?b]) @ filter (\<lambda>b. b \<noteq> []) (cluster_blocks zs d ?g'),
                           \<lambda>i. ?g' (i + ?S * d))"
      by (rule IH)
    also have "(\<lambda>i. ?g' (i + ?S * d)) = (\<lambda>i. g (i + (\<Sum>(n, mean, std) \<leftarrow> z # zs. nat n) * d))"
      by (simp add: z algebra_simps)
    also have "(parts @ [?b]) @ filter (\<lambda>b. b \<noteq> []) (cluster_blocks zs d ?g')
                 = parts @ filter (\<lambda>b. b \<noteq> []) (cluster_blocks (z # zs) d g)"
      using ne by (simp add: z)
    finally show ?thesis .
  qed
qed

lemma concat_filter_nonempty: "concat (filter (\<lambda>b. b \<noteq> []) bs) = concat bs"
  by (induction bs) simp_all

lemma length_concat_cluster_blocks:
  "length (concat (cluster_blocks zs d g)) = (\<Sum>(n, mean, std) \<leftarrow> zs. nat n)"
  by (induction zs arbitrary: g) (auto simp: length_cluster_block)

lemma sum_list_nat_zip3:
  "length sizes \<le> length ms \<Longrightarrow> \<forall>s \<in> set sizes. (0::int) \<le> s \<Longrightarrow>
     (\<Sum>(n, mean, std) \<leftarrow> zip sizes ms. nat n) = nat (sum_list sizes)"
proof (induction sizes arbitrary: ms)
  case Nil
  then show ?case by simp
next
  case (Cons s rest)
  then obtain m ms' where ms: "ms = m # ms'" by (cases ms) auto
  from Cons.prems have "0 \<le> s" and r: "\<forall>s \<in> set rest. 0 \<le> s" by simp_all
  then have "0 \<le> sum_list rest" by (simp add: sum_list_nonneg)
  with Cons \<open>0 \<le> s\<close> r ms show ?case by (cases m) (simp add: nat_add_distrib)
qed

text \<open>
  Claim C8. Given one requested size per cluster, none negative and at least one
  positive, \<^verbatim>\<open>sample_mixture_gaussian\<close> returns without an error; the rows it returns
  are the clusters' blocks in cluster order, a cluster of size zero contributing no row
  and drawing no random number; and the number of rows is the sum of the sizes.
\<close>

theorem sample_mixture_gaussian_rows:
  assumes "length sizes = length means" and "length means = length stds"
    and "\<forall>s \<in> set sizes. 0 \<le> s" and "\<exists>s \<in> set sizes. 0 < s"
    and "\<forall>row \<in> set means. length row = n_cols means"
    and "\<forall>row \<in> set stds. length row = n_cols means"
  shows "\<exists>out g'. sample_mixture_gaussian sizes means stds g = Inr (out, g')
           \<and> out = concat (cluster_blocks (zip sizes (zip means stds)) (n_cols means) g)
           \<and> length out = nat (sum_list sizes)
           \<and> g' = (\<lambda>i. g (i + nat (sum_list sizes) * n_cols means))"
proof -
  let ?d = "n_cols means"
  let ?zs = "zip sizes (zip means stds)"
  let ?blocks = "cluster_blocks ?zs ?d g"
  have wf: "\<forall>(n, mean, std) \<in> set ?zs. 0 \<le> n \<and> length mean = ?d \<and> length std = ?d"
  proof (clarify, intro conjI)
    fix n mean std assume "(n, mean, std) \<in> set ?zs"
    then have "n \<in> set sizes" and "(mean, std) \<in> set (zip means stds)"
      by (auto dest: set_zip_leftD set_zip_rightD)
    then have "n \<in> set sizes" and "mean \<in> set means" and "std \<in> set stds"
      by (auto dest: set_zip_leftD set_zip_rightD)
    with assms(3,5,6) show "0 \<le> n" and "length mean = ?d" and "length std = ?d" by auto
  qed
  have total: "(\<Sum>(n, mean, std) \<leftarrow> ?zs. nat n) = nat (sum_list sizes)"
    using assms(1,2,3) by (intro sum_list_nat_zip3) simp_all
  have loop: "sample_loop ?zs ?d g [] =
                Inr (filter (\<lambda>b. b \<noteq> []) ?blocks, \<lambda>i. g (i + nat (sum_list sizes) * ?d))"
    using sample_loop_blocks [OF wf, of g "[]"] by (simp only: total) simp
  have len: "length (concat ?blocks) = nat (sum_list sizes)"
    by (simp only: length_concat_cluster_blocks total)
  from assms(3,4) have "0 < sum_list sizes"
    by (metis sum_list_nonneg member_le_sum_list less_le_trans)
  with len have "0 < length (concat ?blocks)" by simp
  then have "concat ?blocks \<noteq> []" by (simp del: length_concat)
  then have ne: "filter (\<lambda>b. b \<noteq> []) ?blocks \<noteq> []"
    by (metis concat_filter_nonempty concat.simps(1))
  show ?thesis
    using loop ne len
    by (simp add: sample_mixture_gaussian_def Let_def th_cat_def concat_filter_nonempty)
qed

theorem sample_mixture_gaussian_rows_witness:
  "sample_mixture_gaussian [0, 2] [[0], [10]] [[1], [2]] (\<lambda>i. real i)
     = Inr ([[10], [12]], \<lambda>i. real (i + 2))"
proof -
  let ?g = "\<lambda>i. real i"
  have a: "length [0, 2 :: int] = length [[0], [10 :: real]]" by simp
  have b: "length [[0], [10 :: real]] = length [[1], [2 :: real]]" by simp
  have c: "\<forall>s \<in> set [0, 2 :: int]. 0 \<le> s" by simp
  have d: "\<exists>s \<in> set [0, 2 :: int]. 0 < s" by simp
  have e: "\<forall>row \<in> set [[0], [10 :: real]]. length row = n_cols [[0], [10]]"
    by (simp add: n_cols_def)
  have f: "\<forall>row \<in> set [[1], [2 :: real]]. length row = n_cols [[0], [10 :: real]]"
    by (simp add: n_cols_def)
  have blocks: "concat (cluster_blocks (zip [0, 2] (zip [[0], [10]] [[1], [2]])) (n_cols [[0], [10]]) ?g)
                  = [[10], [12]]"
    by (simp add: n_cols_def cluster_block_def numeral_2_eq_2)
  from sample_mixture_gaussian_rows [OF a b c d e f, of ?g] show ?thesis
    by (simp only: blocks) (simp add: n_cols_def)
qed

section \<open>Properties of the batch functions\<close>

lemma range_from_lt:
  "i \<in> set (range_from i0 stop step) \<Longrightarrow> int i < stop"
proof (induction i0 stop step rule: range_from.induct)
  case (1 i0 stop step)
  from "1.prems" have "step \<noteq> 0 \<and> int i0 < stop
      \<and> (i = i0 \<or> i \<in> set (range_from (i0 + step) stop step))"
    by (subst (asm) range_from.simps) (simp split: if_splits)
  with "1.IH" show ?case by auto
qed

lemma range_from_last:
  "range_from i0 stop step \<noteq> [] \<Longrightarrow> stop \<le> int (last (range_from i0 stop step)) + int step"
proof (induction i0 stop step rule: range_from.induct)
  case (1 i0 stop step)
  have s: "step \<noteq> 0"
    using "1.prems" by (subst (asm) range_from.simps) (simp split: if_splits)
  have lt: "int i0 < stop"
    using "1.prems" by (subst (asm) range_from.simps) (simp split: if_splits)
  have unf: "range_from i0 stop step = i0 # range_from (i0 + step) stop step"
    using s lt by (subst range_from.simps) simp
  show ?case
  proof (cases "range_from (i0 + step) stop step = []")
    case True
    then have "\<not> int (i0 + step) < stop" using s
      by (subst (asm) range_from.simps) (simp split: if_splits)
    with True unf show ?thesis by simp
  next
    case False
    with "1.IH" [OF s lt] unf show ?thesis by simp
  qed
qed

lemma range_from_empty:
  "0 < step \<Longrightarrow> range_from i0 stop step = [] \<longleftrightarrow> stop \<le> int i0"
  by (subst range_from.simps) auto

lemma length_range_from:
  "0 < step \<Longrightarrow> length (range_from i0 stop step) = (nat (stop - int i0) + step - 1) div step"
proof (induction i0 stop step rule: range_from.induct)
  case (1 i0 stop step)
  show ?case
  proof (cases "int i0 < stop")
    case True
    have unf: "range_from i0 stop step = i0 # range_from (i0 + step) stop step"
      using True "1.prems" by (subst range_from.simps) simp
    from "1.prems" have s: "step \<noteq> 0" by simp
    have IH: "length (range_from (i0 + step) stop step)
                = (nat (stop - int (i0 + step)) + step - 1) div step"
      using "1.IH" [OF s True "1.prems"] .
    let ?r = "nat (stop - int i0)"
    from True have r: "0 < ?r" by simp
    show ?thesis
    proof (cases "step \<le> ?r")
      case True
      then have "nat (stop - int (i0 + step)) = ?r - step" by simp
      moreover have "(?r - step + step - 1) div step + 1 = (?r + step - 1) div step"
      proof -
        from True r have e1: "?r + step - 1 = (?r - 1) + step" by simp
        have e2: "((?r - 1) + step) div step = (?r - 1) div step + 1"
          using s by (rule div_add_self2)
        from True have e3: "?r - step + step - 1 = ?r - 1" by simp
        show ?thesis by (simp only: e1 e2 e3)
      qed
      ultimately show ?thesis using unf IH by simp
    next
      case False
      then have z: "nat (stop - int (i0 + step)) = 0" by simp
      from False r have "(?r + step - 1) div step = 1"
      proof -
        from False r have "step \<le> ?r + step - 1" and "?r + step - 1 < 2 * step" by simp_all
        then show ?thesis by (intro div_nat_eqI) simp_all
      qed
      then show ?thesis using unf IH z "1.prems" by simp
    qed
  next
    case False
    then show ?thesis using "1.prems" by (subst range_from.simps) simp
  qed
qed

lemma get_exact_size_batches_full:
  assumes perm: "mset (fst (shuffle g [0..<n])) = mset [0..<n]"
    and B: "0 < B" and nB: "B \<le> n"
  shows "\<exists>bs. get_exact_size_batches shuffle n g B = Inr (bs, snd (shuffle g [0..<n]))
           \<and> length bs = (n - 1) div B + 1
           \<and> (\<forall>b \<in> set bs. length b = B \<and> (\<forall>j \<in> set b. j < n))"
proof -
  let ?xs = "fst (shuffle g [0..<n])"
  let ?starts = "range_from 0 (int n - int B) B"
  let ?batches = "map (\<lambda>i. py_slice ?xs i (i + B)) ?starts"
  define it where "it = (if ?starts = [] then 0 else last ?starts) + B"
  let ?it = "it"
  let ?last = "drop ?it ?xs"
  let ?rem = "int B - int (length ?last)"
  let ?lb = "?last @ py_upto ?xs ?rem"
  have len: "length ?xs = n" using mset_eq_length [OF perm] by simp
  have elems: "set ?xs = {0..<n}" using mset_eq_setD [OF perm] by simp
  have res: "get_exact_size_batches shuffle n g B = Inr (?batches @ [?lb], snd (shuffle g [0..<n]))"
    using B by (simp add: get_exact_size_batches_def Let_def case_prod_unfold it_def)
  have nb: "length (?batches @ [?lb]) = (n - 1) div B + 1"
  proof -
    from nB have "nat (int n - int B - int 0) = n - B" by simp
    moreover from nB B have "n - B + B - 1 = n - 1" by simp
    ultimately show ?thesis using length_range_from [OF B, of 0 "int n - int B"] by simp
  qed
  have batch_ok: "\<forall>b \<in> set ?batches. length b = B \<and> (\<forall>j \<in> set b. j < n)"
  proof
    fix b assume "b \<in> set ?batches"
    then obtain i where i: "i \<in> set ?starts" and b: "b = py_slice ?xs i (i + B)" by auto
    from range_from_lt [OF i] have "i + B < n" by simp
    then have "length b = B" by (simp add: b py_slice_def len)
    moreover have "set b \<subseteq> set ?xs"
      unfolding b py_slice_def by (meson set_take_subset set_drop_subset subset_trans)
    ultimately show "length b = B \<and> (\<forall>j \<in> set b. j < n)" using elems by auto
  qed
  have it: "n - B \<le> ?it \<and> ?it \<le> n"
  proof (cases "?starts = []")
    case True
    then have "int n - int B \<le> int 0" using range_from_empty [OF B, of 0 "int n - int B"] by simp
    with nB have "n = B" by simp
    with True show ?thesis by (simp add: it_def)
  next
    case False
    then have "last ?starts \<in> set ?starts" by (rule last_in_set)
    from range_from_lt [OF this] have "last ?starts + B < n" by simp
    moreover from range_from_last [OF False] have "n - B \<le> last ?starts + B" by simp
    ultimately show ?thesis using False by (simp add: it_def)
  qed
  have last_ok: "length ?lb = B \<and> (\<forall>j \<in> set ?lb. j < n)"
  proof -
    from it have ll: "length ?last = n - ?it" by (simp add: len)
    with it nB have rem: "?rem = int (B - (n - ?it))" and rem_le: "B - (n - ?it) \<le> n" by auto
    have "py_upto ?xs ?rem = take (B - (n - ?it)) ?xs"
      by (simp only: rem py_upto_def) simp
    then have e: "?lb = ?last @ take (B - (n - ?it)) ?xs" by simp
    from it nB have "(n - it) + (B - (n - it)) = B" by linarith
    then have "length ?lb = B" unfolding e using ll rem_le by (simp add: len min_absorb2)
    moreover have "set ?lb \<subseteq> set ?xs"
      unfolding e using set_take_subset [of _ ?xs] set_drop_subset [of _ ?xs] by auto
    ultimately show ?thesis using elems by auto
  qed
  from res nb batch_ok last_ok show ?thesis by (intro exI [of _ "?batches @ [?lb]"]) auto
qed

lemma length_class_indices:
  "length (filter (\<lambda>i. targets ! i = c) [0..<length targets]) = length (filter (\<lambda>t. t = c) targets)"
proof -
  have "filter (\<lambda>t. t = c) (map (\<lambda>i. targets ! i) [0..<length targets])
          = map (\<lambda>i. targets ! i) (filter (\<lambda>i. targets ! i = c) [0..<length targets])"
    by (simp add: filter_map comp_def)
  then have "filter (\<lambda>t. t = c) targets
          = map (\<lambda>i. targets ! i) (filter (\<lambda>i. targets ! i = c) [0..<length targets])"
    by (simp only: map_nth)
  then show ?thesis by (metis length_map)
qed

lemma take_indices_all:
  assumes "\<forall>b \<in> set bs. \<forall>j \<in> set b. j < length xs"
  shows "map_err (take_indices xs) bs = Inr (map (map (\<lambda>j. xs ! j)) bs)"
  using assms by (intro map_err_Inr) (simp add: take_indices_def list_all_iff)

lemma cluster_loop_ok:
  assumes perm: "\<And>g xs. mset (fst (shuffle g xs)) = mset xs"
    and B: "0 < B"
    and enough: "\<forall>c \<in> set cs. B \<le> length (filter (\<lambda>t. t = int c) targets)"
  shows "\<exists>new g'. cluster_loop shuffle targets cs g B bpc = Inr (bpc @ new, g')
           \<and> list_all2 (class_batches_ok targets B) cs new"
  using enough
proof (induction cs arbitrary: g bpc)
  case Nil
  then show ?case by simp
next
  case (Cons c cs)
  let ?n = "length (filter (\<lambda>t. t = int c) targets)"
  let ?idx = "filter (\<lambda>i. targets ! i = int c) [0..<length targets]"
  from Cons.prems have nB: "B \<le> ?n"
    and rest: "\<forall>c \<in> set cs. B \<le> length (filter (\<lambda>t. t = int c) targets)" by simp_all
  from get_exact_size_batches_full [of shuffle g ?n B, OF perm B nB]
  obtain bs where ex: "get_exact_size_batches shuffle ?n g B = Inr (bs, snd (shuffle g [0..<?n]))"
    and nbs: "length bs = (?n - 1) div B + 1"
    and bs_ok: "\<forall>b \<in> set bs. length b = B \<and> (\<forall>j \<in> set b. j < ?n)" by blast
  have lidx: "length ?idx = ?n" by (rule length_class_indices)
  let ?bs' = "map (map (\<lambda>j. ?idx ! j)) bs"
  have ti: "map_err (take_indices ?idx) bs = Inr ?bs'"
    using bs_ok by (intro take_indices_all) (simp add: lidx)
  have ok: "class_batches_ok targets B c ?bs'"
  proof -
    have "\<forall>b \<in> set ?bs'. length b = B \<and> (\<forall>i \<in> set b. i < length targets \<and> targets ! i = int c)"
    proof
      fix b assume "b \<in> set ?bs'"
      then obtain b0 where b0: "b0 \<in> set bs" and b: "b = map (\<lambda>j. ?idx ! j) b0" by auto
      from b0 bs_ok b have lb: "length b = B" by simp
      have "\<forall>i \<in> set b. i < length targets \<and> targets ! i = int c"
      proof
        fix i assume "i \<in> set b"
        with b obtain j where "j \<in> set b0" and i: "i = ?idx ! j" by auto
        with bs_ok b0 have "j < length ?idx" by (simp add: lidx)
        then have "?idx ! j \<in> set ?idx" by (rule nth_mem)
        then show "i < length targets \<and> targets ! i = int c" unfolding i by simp
      qed
      with lb show "length b = B \<and> (\<forall>i \<in> set b. i < length targets \<and> targets ! i = int c)" ..
    qed
    with nbs show ?thesis by (simp add: class_batches_ok_def)
  qed
  from Cons.IH [OF rest, of "snd (shuffle g [0..<?n])" "bpc @ [?bs']"]
  obtain new g' where loop: "cluster_loop shuffle targets cs (snd (shuffle g [0..<?n])) B (bpc @ [?bs'])
                               = Inr ((bpc @ [?bs']) @ new, g')"
    and all: "list_all2 (class_batches_ok targets B) cs new" by blast
  have "cluster_loop shuffle targets (c # cs) g B bpc = Inr (bpc @ (?bs' # new), g')"
    using ex ti loop by (simp add: Let_def)
  moreover have "list_all2 (class_batches_ok targets B) (c # cs) (?bs' # new)"
    using ok all by simp
  ultimately show ?case by blast
qed

lemma class_count_concat:
  "class_count targets c (concat bss) = sum_list (map (class_count targets c) bss)"
  by (induction bss) (simp_all add: class_count_def)

lemma class_count_own:
  "\<forall>i \<in> set b. targets ! i = int c' \<Longrightarrow>
     class_count targets c b = (if c' = c then length b else 0)"
  by (induction b) (auto simp: class_count_def)

lemma sum_list_delta_upt:
  "c < n \<Longrightarrow> sum_list (map (\<lambda>c'. if c' = c then (B::nat) else 0) [0..<n]) = B"
  by (simp add: interv_sum_list_conv_sum_set_nat)

lemma np_concatenate_axis1_rows:
  assumes "arrays \<noteq> []"
    and "\<forall>a \<in> set arrays. length a = m \<and> (\<forall>b \<in> set a. length b = B)"
    and "0 < m"
  shows "np_concatenate_axis1 arrays = Inr (map (\<lambda>i. concat (map (\<lambda>a. a ! i) arrays)) [0..<m])"
proof -
  from assms(1) obtain first rest where ar: "arrays = first # rest" by (cases arrays) auto
  with assms(2) have lf: "length first = m" by simp
  have c1: "list_all (\<lambda>a. a \<noteq> [] \<and> list_all (\<lambda>b. length b = length (hd a)) a) arrays"
    unfolding list_all_iff
  proof (intro ballI conjI)
    fix a assume a: "a \<in> set arrays"
    with assms(2,3) show "a \<noteq> []" by auto
    then have "hd a \<in> set a" by simp
    with assms(2) a have "length (hd a) = B" by blast
    moreover fix b assume "b \<in> set a"
    ultimately show "length b = length (hd a)" using assms(2) a by simp
  qed
  have c2: "list_all (\<lambda>a. length a = length first) arrays"
    using assms(2) lf by (simp add: list_all_iff)
  from c1 c2 show ?thesis by (simp add: np_concatenate_axis1_def ar lf [symmetric])
qed

text \<open>
  Claim C4, as amended. With a shuffle that permutes, a positive batch size \<open>B\<close>, every
  class holding at least \<open>B\<close> examples and all classes giving the same number of batches,
  \<^verbatim>\<open>get_batches_equal_classes\<close> returns; every batch has \<open>n_classes * B\<close> valid indices and
  exactly \<open>B\<close> of them belong to each class.
\<close>

theorem get_batches_equal_classes_balanced:
  assumes perm: "\<And>g xs. mset (fst (shuffle g xs)) = mset xs"
    and B: "0 < B" and nc: "0 < n_classes"
    and enough: "\<forall>c < n_classes. B \<le> n_examples targets c"
    and same: "\<forall>c < n_classes. (n_examples targets c - 1) div B = (n_examples targets 0 - 1) div B"
  shows "\<exists>batches rng'. get_batches_equal_classes shuffle targets n_classes rng B = Inr (batches, rng')
           \<and> length batches = (n_examples targets 0 - 1) div B + 1
           \<and> (\<forall>b \<in> set batches. length b = n_classes * B
                  \<and> (\<forall>i \<in> set b. i < length targets)
                  \<and> (\<forall>c < n_classes. class_count targets c b = B))"
proof -
  let ?m = "(n_examples targets 0 - 1) div B + 1"
  have enough': "\<forall>c \<in> set [0..<n_classes]. B \<le> length (filter (\<lambda>t. t = int c) targets)"
    using enough by (simp add: n_examples_def)
  from cluster_loop_ok [of shuffle B "[0..<n_classes]" targets rng "[]", OF perm B enough']
  obtain new rng' where loop: "cluster_loop shuffle targets [0..<n_classes] rng B [] = Inr (new, rng')"
    and all: "list_all2 (class_batches_ok targets B) [0..<n_classes] new" by auto
  from all have ln: "length new = n_classes" by (simp add: list_all2_lengthD [symmetric])
  have cls: "\<And>c. c < n_classes \<Longrightarrow> class_batches_ok targets B c (new ! c)"
    using list_all2_nthD [OF all] by simp
  have per: "\<And>c. c < n_classes \<Longrightarrow> length (new ! c) = ?m
               \<and> (\<forall>b \<in> set (new ! c). length b = B
                      \<and> (\<forall>i \<in> set b. i < length targets \<and> targets ! i = int c))"
    using cls same by (simp add: class_batches_ok_def n_examples_def)
  have arr: "\<forall>a \<in> set new. length a = ?m \<and> (\<forall>b \<in> set a. length b = B)"
  proof
    fix a assume "a \<in> set new"
    then obtain c where "c < n_classes" and "a = new ! c" by (auto simp: in_set_conv_nth ln)
    with per [of c] show "length a = ?m \<and> (\<forall>b \<in> set a. length b = B)" by simp
  qed
  from nc ln have ne: "new \<noteq> []" by auto
  let ?rows = "map (\<lambda>i. concat (map (\<lambda>a. a ! i) new)) [0..<?m]"
  have cat: "np_concatenate_axis1 new = Inr ?rows"
    using ne arr by (rule np_concatenate_axis1_rows) simp
  have res: "get_batches_equal_classes shuffle targets n_classes rng B = Inr (?rows, rng')"
    by (simp add: get_batches_equal_classes_def loop cat)
  have rows_ok: "\<forall>b \<in> set ?rows. length b = n_classes * B
                  \<and> (\<forall>i \<in> set b. i < length targets)
                  \<and> (\<forall>c < n_classes. class_count targets c b = B)"
  proof
    fix b assume "b \<in> set ?rows"
    then obtain k where k: "k < ?m" and b: "b = concat (map (\<lambda>a. a ! k) new)"
      by (auto simp del: upt_Suc)
    have nth_in: "\<And>c. c < n_classes \<Longrightarrow> new ! c ! k \<in> set (new ! c)"
      using per k by simp
    have parts: "map (\<lambda>a. a ! k) new = map (\<lambda>c. new ! c ! k) [0..<n_classes]"
      by (rule nth_equalityI) (simp_all add: ln)
    have l: "length b = n_classes * B"
    proof -
      have "map length (map (\<lambda>c. new ! c ! k) [0..<n_classes]) = map (\<lambda>c. B) [0..<n_classes]"
        using per nth_in by (intro nth_equalityI) simp_all
      then show ?thesis
        unfolding b parts by (simp only: length_concat) (simp add: sum_list_triv)
    qed
    have v: "\<forall>i \<in> set b. i < length targets"
    proof
      fix i assume "i \<in> set b"
      then obtain c where "c < n_classes" and "i \<in> set (new ! c ! k)"
        unfolding b parts by auto
      with per [of c] nth_in [of c] show "i < length targets" by blast
    qed
    have cc: "\<forall>c < n_classes. class_count targets c b = B"
    proof (intro allI impI)
      fix c assume c: "c < n_classes"
      have "map (class_count targets c) (map (\<lambda>c'. new ! c' ! k) [0..<n_classes])
              = map (\<lambda>c'. if c' = c then B else 0) [0..<n_classes]"
      proof (rule nth_equalityI)
        show "length (map (class_count targets c) (map (\<lambda>c'. new ! c' ! k) [0..<n_classes]))
                = length (map (\<lambda>c'. if c' = c then B else 0) [0..<n_classes])" by simp
      next
        fix c' assume "c' < length (map (class_count targets c) (map (\<lambda>c'. new ! c' ! k) [0..<n_classes]))"
        then have c': "c' < n_classes" by simp
        from per [OF c'] nth_in [OF c']
        have own: "\<forall>i \<in> set (new ! c' ! k). targets ! i = int c'"
          and lb: "length (new ! c' ! k) = B" by blast+
        from class_count_own [OF own, of c] lb
        have "class_count targets c (new ! c' ! k) = (if c' = c then B else 0)" by auto
        with c'
        show "map (class_count targets c) (map (\<lambda>c'. new ! c' ! k) [0..<n_classes]) ! c'
                = map (\<lambda>c'. if c' = c then B else 0) [0..<n_classes] ! c'" by simp
      qed
      then have "sum_list (map (class_count targets c) (map (\<lambda>c'. new ! c' ! k) [0..<n_classes])) = B"
        by (simp only: sum_list_delta_upt [OF c])
      then show "class_count targets c b = B"
        unfolding b parts class_count_concat .
    qed
    from l v cc show "length b = n_classes * B
                  \<and> (\<forall>i \<in> set b. i < length targets)
                  \<and> (\<forall>c < n_classes. class_count targets c b = B)" by blast
  qed
  from res rows_ok show ?thesis by (intro exI [of _ ?rows] exI [of _ rng']) simp
qed

lemma rev_shuffle_perm: "mset (fst (rev_shuffle g xs)) = mset xs"
  by (simp add: rev_shuffle_def)

theorem get_batches_equal_classes_balanced_witness:
  "get_batches_equal_classes rev_shuffle [0, 0, 1, 1, 1, 0, 1, 0, 0, 1] 2 () 2
     = Inr ([[8, 7, 9, 6], [5, 1, 4, 3], [0, 8, 2, 9]], ())
   \<and> (\<exists>batches rng'. get_batches_equal_classes rev_shuffle [0, 0, 1, 1, 1, 0, 1, 0, 0, 1] 2 () 2
          = Inr (batches, rng') \<and> length batches = 3)"
proof -
  let ?t = "[0, 0, 1, 1, 1, 0, 1, 0, 0, 1] :: int list"
  have n0: "n_examples ?t 0 = 5" and n1: "n_examples ?t (Suc 0) = 5"
    by (simp_all add: n_examples_def)
  have lt2: "\<And>P. (\<forall>c < (2::nat). P c) \<longleftrightarrow> P 0 \<and> P (Suc 0)"
    by (auto simp: less_2_cases_iff)
  have a: "(0::nat) < 2" by simp
  have b: "\<forall>c < 2. 2 \<le> n_examples ?t c" by (simp add: lt2 n0 n1)
  have c: "\<forall>c < 2. (n_examples ?t c - 1) div 2 = (n_examples ?t 0 - 1) div 2"
    by (simp add: lt2 n0 n1)
  have e: "get_batches_equal_classes rev_shuffle ?t 2 () 2
             = Inr ([[8, 7, 9, 6], [5, 1, 4, 3], [0, 8, 2, 9]], ())"
    by code_simp
  from get_batches_equal_classes_balanced [of rev_shuffle 2 2 ?t "()", OF rev_shuffle_perm a a b c] e
  show ?thesis by (simp add: n0)
qed

text \<open>
  Claim C4, as stated, fails: with four targets, two of each class, and \<open>B = 2\<close> the only
  batch holds two examples of each class, not \<open>B / n_classes = 1\<close>.
\<close>

theorem get_batches_equal_classes_counterexample:
  "get_batches_equal_classes rev_shuffle [0, 0, 1, 1] 2 () 2 = Inr ([[1, 0, 3, 2]], ())
   \<and> class_count [0, 0, 1, 1] 0 [1, 0, 3, 2] = 2
   \<and> class_count [0, 0, 1, 1] 1 [1, 0, 3, 2] = 2
   \<and> (2::nat) div 2 = 1"
  by code_simp

section \<open>Properties of \<^verbatim>\<open>sizes_from_weights\<close>\<close>

lemma pick_min_None: "pick_min key xs = None \<longleftrightarrow> xs = []"
  by (induction xs) (auto split: option.splits)

lemma pick_min_mem: "pick_min key xs = Some i \<Longrightarrow> i \<in> set xs"
  by (induction xs arbitrary: i) (auto split: option.splits if_splits)

lemma sum_list_pos_nth:
  "0 < sum_list (rs :: int list) \<Longrightarrow> \<exists>i < length rs. 0 < rs ! i"
proof (rule ccontr)
  assume pos: "0 < sum_list rs" and "\<not> (\<exists>i < length rs. 0 < rs ! i)"
  then have "\<And>r. r \<in> set rs \<Longrightarrow> r \<le> 0"
    by (metis in_set_conv_nth not_less)
  then have "sum_list rs \<le> 0" by (rule sum_list_nonpos)
  with pos show False by simp
qed

text \<open>
  The mask of either loop, after its fallback: when some entry of \<open>rounded\<close> is positive
  it selects a position, and every position it selects holds a positive entry.
\<close>

lemma mask_pick:
  assumes "\<exists>i < length rounded. 0 < (rounded :: int list) ! i"
  shows "\<exists>i_min. pick_min key
           (if filter (\<lambda>i. P i \<and> 0 < rounded ! i) [0..<length rounded] = []
            then filter (\<lambda>i. 0 < rounded ! i) [0..<length rounded]
            else filter (\<lambda>i. P i \<and> 0 < rounded ! i) [0..<length rounded]) = Some i_min"
proof -
  let ?m1 = "filter (\<lambda>i. P i \<and> 0 < rounded ! i) [0..<length rounded]"
  let ?m2 = "filter (\<lambda>i. 0 < rounded ! i) [0..<length rounded]"
  from assms obtain i where "i < length rounded" and "0 < rounded ! i" by blast
  then have "i \<in> set ?m2" by simp
  then have m2: "?m2 \<noteq> []" by (metis empty_iff empty_set)
  have ne: "(if ?m1 = [] then ?m2 else ?m1) \<noteq> []"
  proof (cases "?m1 = []")
    case True
    show ?thesis unfolding if_P [OF True] by (rule m2)
  next
    case False
    show ?thesis unfolding if_not_P [OF False] by (rule False)
  qed
  have "pick_min key (if ?m1 = [] then ?m2 else ?m1) \<noteq> None"
  proof
    assume "pick_min key (if ?m1 = [] then ?m2 else ?m1) = None"
    then have "(if ?m1 = [] then ?m2 else ?m1) = []" by (rule pick_min_None [THEN iffD1])
    with ne show False by (rule notE)
  qed
  then show ?thesis by (simp only: not_None_eq)
qed

lemma mask_pick_positive:
  assumes "pick_min key
           (if filter (\<lambda>i. P i \<and> 0 < rounded ! i) [0..<length rounded] = []
            then filter (\<lambda>i. 0 < rounded ! i) [0..<length rounded]
            else filter (\<lambda>i. P i \<and> 0 < rounded ! i) [0..<length rounded]) = Some i_min"
  shows "i_min < length rounded \<and> 0 < (rounded :: int list) ! i_min"
proof -
  let ?m1 = "filter (\<lambda>i. P i \<and> 0 < rounded ! i) [0..<length rounded]"
  let ?m2 = "filter (\<lambda>i. 0 < rounded ! i) [0..<length rounded]"
  have mem: "i_min \<in> set (if ?m1 = [] then ?m2 else ?m1)"
    using assms by (rule pick_min_mem)
  show ?thesis
  proof (cases "?m1 = []")
    case True
    from mem have "i_min \<in> set ?m2" unfolding if_P [OF True] .
    then show ?thesis by simp
  next
    case False
    from mem have "i_min \<in> set ?m1" unfolding if_not_P [OF False] .
    then show ?thesis by simp
  qed
qed

lemma sum_list_update_int:
  "i < length rs \<Longrightarrow> sum_list (rs[i := x]) = sum_list rs + x - (rs ! i :: int)"
proof (induction rs arbitrary: i)
  case Nil
  then show ?case by simp
next
  case (Cons r rs)
  then show ?case by (cases i) simp_all
qed

lemma dec_loop_returns:
  assumes "n_total = sum_list rounded" and "\<forall>r \<in> set rounded. 0 \<le> r" and "0 \<le> size'"
  shows "\<exists>d r. dec_loop size' (diff_with_half, rounded, n_total) = Inr (d, r, min n_total size')
           \<and> sum_list r = min n_total size' \<and> (\<forall>x \<in> set r. 0 \<le> x)
           \<and> length r = length rounded \<and> (n_total \<le> size' \<longrightarrow> r = rounded)"
  using assms
proof (induction size' "(diff_with_half, rounded, n_total)"
    arbitrary: diff_with_half rounded n_total rule: dec_loop.induct)
  case (1 size' diff_with_half rounded n_total)
  show ?case
  proof (cases "size' < n_total")
    case False
    then show ?thesis using "1.prems" by (subst dec_loop.simps) (simp add: min_def)
  next
    case True
    let ?mask = "(if filter (\<lambda>i. 0 < diff_with_half ! i \<and> 0 < rounded ! i) [0..<length rounded] = []
            then filter (\<lambda>i. 0 < rounded ! i) [0..<length rounded]
            else filter (\<lambda>i. 0 < diff_with_half ! i \<and> 0 < rounded ! i) [0..<length rounded])"
    from True "1.prems" have "0 < sum_list rounded" by simp
    then have ex: "\<exists>i < length rounded. 0 < rounded ! i" by (rule sum_list_pos_nth)
    from mask_pick [OF ex, of "\<lambda>i. diff_with_half ! i" "\<lambda>i. 0 < diff_with_half ! i"]
    obtain i_min where pick: "pick_min (\<lambda>i. diff_with_half ! i) ?mask = Some i_min" by blast
    from mask_pick_positive [OF pick] have i: "i_min < length rounded" and p: "0 < rounded ! i_min"
      by simp_all
    let ?d = "diff_with_half[i_min := diff_with_half ! i_min + 1 / 2]"
    let ?r = "rounded[i_min := rounded ! i_min - 1]"
    have unf: "dec_loop size' (diff_with_half, rounded, n_total) = dec_loop size' (?d, ?r, n_total - 1)"
      using True pick by (subst dec_loop.simps) (simp add: Let_def)
    have s: "n_total - 1 = sum_list ?r" using i "1.prems"(1) by (simp add: sum_list_update_int)
    have nn: "\<forall>r \<in> set ?r. 0 \<le> r"
    proof
      fix r assume "r \<in> set ?r"
      then have "r = rounded ! i_min - 1 \<or> r \<in> set rounded"
        using set_update_subset_insert [of rounded i_min] by auto
      with p "1.prems"(2) show "0 \<le> r" by auto
    qed
    have m: "min (n_total - 1) size' = min n_total size'" using True by simp
    from "1.hyps" [OF True refl refl refl pick s nn "1.prems"(3)]
    obtain d r where a: "dec_loop size' (?d, ?r, n_total - 1) = Inr (d, r, min (n_total - 1) size')"
      and b: "sum_list r = min (n_total - 1) size'" and c: "\<forall>x \<in> set r. 0 \<le> x"
      and l: "length r = length ?r" by (elim exE conjE)
    have "dec_loop size' (diff_with_half, rounded, n_total) = Inr (d, r, min n_total size')"
      by (simp only: unf a m)
    moreover have "sum_list r = min n_total size'" by (simp only: b m)
    moreover have "length r = length rounded" using l by simp
    moreover have "n_total \<le> size' \<longrightarrow> r = rounded" using True by simp
    ultimately show ?thesis using c by blast
  qed
qed

lemma inc_loop_returns:
  assumes "n_total = sum_list rounded" and "\<forall>r \<in> set rounded. 0 \<le> r"
    and "\<exists>i < length rounded. 0 < rounded ! i"
  shows "\<exists>d r. inc_loop size' (diff_with_half, rounded, n_total) = Inr (d, r, max n_total size')
           \<and> sum_list r = max n_total size' \<and> (\<forall>x \<in> set r. 0 \<le> x)
           \<and> length r = length rounded"
  using assms
proof (induction size' "(diff_with_half, rounded, n_total)"
    arbitrary: diff_with_half rounded n_total rule: inc_loop.induct)
  case (1 size' diff_with_half rounded n_total)
  show ?case
  proof (cases "n_total < size'")
    case False
    then show ?thesis using "1.prems" by (subst inc_loop.simps) (simp add: max_def)
  next
    case True
    let ?mask = "(if filter (\<lambda>i. diff_with_half ! i < 0 \<and> 0 < rounded ! i) [0..<length rounded] = []
            then filter (\<lambda>i. 0 < rounded ! i) [0..<length rounded]
            else filter (\<lambda>i. diff_with_half ! i < 0 \<and> 0 < rounded ! i) [0..<length rounded])"
    from mask_pick [OF "1.prems"(3), of "\<lambda>i. - (diff_with_half ! i)" "\<lambda>i. diff_with_half ! i < 0"]
    obtain i_min where pick: "pick_min (\<lambda>i. - (diff_with_half ! i)) ?mask = Some i_min" by blast
    from mask_pick_positive [OF pick] have i: "i_min < length rounded" and p: "0 < rounded ! i_min"
      by simp_all
    let ?d = "diff_with_half[i_min := diff_with_half ! i_min - 1 / 2]"
    let ?r = "rounded[i_min := rounded ! i_min + 1]"
    have unf: "inc_loop size' (diff_with_half, rounded, n_total) = inc_loop size' (?d, ?r, n_total + 1)"
      using True pick by (subst inc_loop.simps) (simp add: Let_def)
    have s: "n_total + 1 = sum_list ?r" using i "1.prems"(1) by (simp add: sum_list_update_int)
    have nn: "\<forall>r \<in> set ?r. 0 \<le> r"
    proof
      fix r assume "r \<in> set ?r"
      then have "r = rounded ! i_min + 1 \<or> r \<in> set rounded"
        using set_update_subset_insert [of rounded i_min] by auto
      with p "1.prems"(2) show "0 \<le> r" by auto
    qed
    have ex: "\<exists>i < length ?r. 0 < ?r ! i"
      using i p by (intro exI [of _ i_min]) simp
    have m: "max (n_total + 1) size' = max n_total size'" using True by simp
    from "1.hyps" [OF True refl refl refl pick s nn ex]
    obtain d r where a: "inc_loop size' (?d, ?r, n_total + 1) = Inr (d, r, max (n_total + 1) size')"
      and b: "sum_list r = max (n_total + 1) size'" and c: "\<forall>x \<in> set r. 0 \<le> x"
      and l: "length r = length ?r" by (elim exE conjE)
    have "inc_loop size' (diff_with_half, rounded, n_total) = Inr (d, r, max n_total size')"
      by (simp only: unf a m)
    moreover have "sum_list r = max n_total size'" by (simp only: b m)
    moreover have "length r = length rounded" using l by simp
    ultimately show ?thesis using c by blast
  qed
qed

lemma inc_loop_fails:
  assumes "n_total < size'" and "\<forall>r \<in> set rounded. r \<le> 0"
  shows "inc_loop size' (diff_with_half, rounded, n_total) = Inl IndexError"
proof -
  from assms(2) have "filter (\<lambda>i. 0 < rounded ! i) [0..<length rounded] = []"
    by (auto simp: filter_empty_conv not_less)
  moreover from assms(2)
  have "filter (\<lambda>i. diff_with_half ! i < 0 \<and> 0 < rounded ! i) [0..<length rounded] = []"
    by (auto simp: filter_empty_conv not_less)
  ultimately show ?thesis using assms(1) by (subst inc_loop.simps) (simp add: Let_def)
qed

lemma round_half_even_nonneg: "0 \<le> x \<Longrightarrow> 0 \<le> round_half_even x"
proof -
  assume "0 \<le> x"
  then have "0 \<le> \<lfloor>x\<rfloor>" by simp
  then show ?thesis unfolding round_half_even_def Let_def by (auto split: if_splits)
qed

lemma dec_loop_skip:
  "\<not> size' < n_total \<Longrightarrow>
     dec_loop size' (diff_with_half, rounded, n_total) = Inr (diff_with_half, rounded, n_total)"
  by (subst dec_loop.simps) simp

text \<open>
  For a positive total, non-negative weights with a positive sum and at least one
  fractional size that rounds to a positive integer, \<^verbatim>\<open>sizes_from_weights\<close> returns one
  non-negative integer per weight, and they sum to the total.
\<close>

lemma sizes_from_weights_returns:
  assumes size': "0 < size'" and nonneg: "\<forall>w \<in> set weights. 0 \<le> w"
    and total: "0 < sum_list weights"
    and some: "\<exists>f \<in> set (fractional_sizes size' weights). 0 < round_half_even f"
  shows "\<exists>sizes. sizes_from_weights size' weights = Inr sizes \<and> length sizes = length weights
           \<and> (\<forall>s \<in> set sizes. 0 \<le> s) \<and> sum_list sizes = size'"
proof -
  let ?fs = "fractional_sizes size' weights"
  let ?r0 = "map round_half_even ?fs"
  let ?d0 = "map (\<lambda>f. frac f - 1 / 2) ?fs"
  let ?n0 = "sum_list ?r0"
  have fs_nonneg: "\<forall>f \<in> set ?fs. 0 \<le> f"
    using nonneg total size' by (auto simp: fractional_sizes_def)
  then have r0_nonneg: "\<forall>r \<in> set ?r0. 0 \<le> r"
    by (auto simp: round_half_even_nonneg)
  from size' have s0: "0 \<le> size'" by simp
  from dec_loop_returns [OF refl r0_nonneg s0, of ?d0]
  obtain d r where dec: "dec_loop size' (?d0, ?r0, ?n0) = Inr (d, r, min ?n0 size')"
    and sr: "sum_list r = min ?n0 size'" and rn: "\<forall>x \<in> set r. 0 \<le> x"
    and lr: "length r = length ?r0" and same: "?n0 \<le> size' \<longrightarrow> r = ?r0"
    by (elim exE conjE)
  have pos: "\<exists>i < length r. 0 < r ! i"
  proof (cases "?n0 \<le> size'")
    case True
    with same have e: "r = ?r0" by simp
    from some obtain f where "f \<in> set ?fs" and "0 < round_half_even f" by blast
    then have "round_half_even f \<in> set ?r0" and "0 < round_half_even f" by simp_all
    then show ?thesis unfolding e by (metis in_set_conv_nth)
  next
    case False
    with sr size' have "0 < sum_list r" by simp
    then show ?thesis by (rule sum_list_pos_nth)
  qed
  from inc_loop_returns [OF sr [symmetric] rn pos, of size' d]
  obtain d' r' where inc: "inc_loop size' (d, r, min ?n0 size') = Inr (d', r', max (min ?n0 size') size')"
    and sr': "sum_list r' = max (min ?n0 size') size'" and rn': "\<forall>x \<in> set r'. 0 \<le> x"
    and lr': "length r' = length r"
    by (elim exE conjE)
  have m: "max (min ?n0 size') size' = size'" by simp
  from total have t: "sum_list weights \<noteq> 0" by simp
  have "sizes_from_weights size' weights = Inr r'"
    using t sr' by (simp add: sizes_from_weights_def Let_def dec inc m)
  moreover have "length r' = length weights" using lr lr' by (simp add: fractional_sizes_def)
  moreover have "sum_list r' = size'" using sr' by (simp only: m)
  ultimately show ?thesis using rn' by blast
qed

text \<open>
  When no fractional size rounds to a positive integer, the second loop finds no entry
  to raise and the call ends in an \<open>IndexError\<close>.
\<close>

lemma sizes_from_weights_fails:
  assumes size': "0 < size'" and total: "sum_list weights \<noteq> 0"
    and none: "\<forall>f \<in> set (fractional_sizes size' weights). round_half_even f \<le> 0"
  shows "sizes_from_weights size' weights = Inl IndexError"
proof -
  let ?fs = "fractional_sizes size' weights"
  let ?r0 = "map round_half_even ?fs"
  let ?d0 = "map (\<lambda>f. frac f - 1 / 2) ?fs"
  let ?n0 = "sum_list ?r0"
  from none have r0: "\<forall>r \<in> set ?r0. r \<le> 0" by simp
  then have "?n0 \<le> 0" by (intro sum_list_nonpos) blast
  with size' have lt: "?n0 < size'" by simp
  then have dec: "dec_loop size' (?d0, ?r0, ?n0) = Inr (?d0, ?r0, ?n0)"
    by (intro dec_loop_skip) simp
  have inc: "inc_loop size' (?d0, ?r0, ?n0) = Inl IndexError"
    using lt r0 by (rule inc_loop_fails)
  show ?thesis using total by (simp add: sizes_from_weights_def Let_def dec inc)
qed

text \<open>
  Claim C2, at a failing input. One sample to share among three equal weights: every
  fractional size is \<open>1/3\<close>, every rounded size is 0, and the loop that should add the
  missing sample finds no entry it may raise.
\<close>

theorem sizes_from_weights_index_error:
  "sizes_from_weights 1 [1, 1, 1] = Inl IndexError"
  by code_simp

section \<open>Properties of the error function\<close>

lemma erf_coeff_summable: "summable (\<lambda>n. erf_coeff n * t ^ n)"
proof (rule summable_comparison_test')
  show "summable (\<lambda>n. inverse (fact n) * \<bar>t\<bar> ^ n)" by (rule summable_exp)
next
  fix n :: nat
  have "norm (erf_coeff n * t ^ n) = \<bar>t\<bar> ^ n / (fact n * real (2 * n + 1))"
    by (simp add: erf_coeff_def abs_mult power_abs)
  also have "\<dots> \<le> \<bar>t\<bar> ^ n / (fact n * 1)"
    by (intro divide_left_mono mult_left_mono) simp_all
  also have "\<dots> = inverse (fact n) * \<bar>t\<bar> ^ n" by (simp add: field_simps)
  finally show "norm (erf_coeff n * t ^ n) \<le> inverse (fact n) * \<bar>t\<bar> ^ n" .
qed

lemma erf_series_deriv:
  "DERIV erf_series t :> (\<Sum>n. diffs erf_coeff n * t ^ n)"
  unfolding erf_series_def
  by (rule termdiffs_strong_converges_everywhere) (rule erf_coeff_summable)

lemma erf_series_sums: "(\<lambda>n. erf_coeff n * t ^ n) sums erf_series t"
  unfolding erf_series_def by (rule summable_sums) (rule erf_coeff_summable)

lemma erf_series_diffs_sums:
  "(\<lambda>n. diffs erf_coeff n * t ^ n) sums (\<Sum>n. diffs erf_coeff n * t ^ n)"
  by (rule summable_sums) (rule termdiff_converges_all, rule erf_coeff_summable)

text \<open>The series and its derivative combine to the exponential series.\<close>

lemma erf_series_exp:
  "erf_series t + 2 * t * (\<Sum>n. diffs erf_coeff n * t ^ n) = exp (- t)"
proof -
  let ?d = "\<Sum>n. diffs erf_coeff n * t ^ n"
  have "(\<lambda>n. t * (diffs erf_coeff n * t ^ n)) sums (t * ?d)"
    by (rule sums_mult) (rule erf_series_diffs_sums)
  then have "(\<lambda>n. real (Suc n) * erf_coeff (Suc n) * t ^ Suc n) sums (t * ?d)"
    by (simp add: diffs_def mult_ac)
  then have "(\<lambda>n. real n * erf_coeff n * t ^ n) sums (t * ?d + real 0 * erf_coeff 0 * t ^ 0)"
    by (subst (asm) sums_Suc_iff [of "\<lambda>n. real n * erf_coeff n * t ^ n"])
  then have "(\<lambda>n. real n * erf_coeff n * t ^ n) sums (t * ?d)" by simp
  then have "(\<lambda>n. 2 * (real n * erf_coeff n * t ^ n)) sums (2 * (t * ?d))"
    by (rule sums_mult)
  from sums_add [OF erf_series_sums [of t] this]
  have "(\<lambda>n. erf_coeff n * t ^ n + 2 * (real n * erf_coeff n * t ^ n))
          sums (erf_series t + 2 * (t * ?d))" .
  moreover have "(\<lambda>n. erf_coeff n * t ^ n + 2 * (real n * erf_coeff n * t ^ n))
                   = (\<lambda>n. (- t) ^ n /\<^sub>R fact n)"
  proof
    fix n
    have "erf_coeff n * t ^ n + 2 * (real n * erf_coeff n * t ^ n)
            = (real (2 * n + 1) * erf_coeff n) * t ^ n"
      by (simp add: algebra_simps)
    also have "real (2 * n + 1) * erf_coeff n = (- 1) ^ n / fact n"
      by (simp add: erf_coeff_def)
    also have "(- 1) ^ n / fact n * t ^ n = (- t) ^ n /\<^sub>R fact n"
      by (simp add: power_minus [of t] field_simps scaleR_conv_of_real)
    finally show "erf_coeff n * t ^ n + 2 * (real n * erf_coeff n * t ^ n)
                    = (- t) ^ n /\<^sub>R fact n" .
  qed
  ultimately have "(\<lambda>n. (- t) ^ n /\<^sub>R fact n) sums (erf_series t + 2 * (t * ?d))" by simp
  from sums_unique2 [OF this exp_converges [of "- t"]] show ?thesis by (simp add: mult.assoc)
qed

lemma erf_deriv: "DERIV erf x :> 2 / sqrt pi * exp (- (x * x))"
proof -
  let ?d = "\<lambda>t. \<Sum>n. diffs erf_coeff n * t ^ n"
  have sq: "DERIV (\<lambda>x. x * x) x :> 2 * x"
    by (auto intro!: derivative_eq_intros)
  have inner: "DERIV (\<lambda>x. erf_series (x * x)) x :> ?d (x * x) * (2 * x)"
    by (rule DERIV_chain' [OF sq erf_series_deriv])
  have "DERIV (\<lambda>x. x * erf_series (x * x)) x
          :> 1 * erf_series (x * x) + (?d (x * x) * (2 * x)) * x"
    by (rule DERIV_mult [OF DERIV_ident inner])
  moreover have "1 * erf_series (x * x) + (?d (x * x) * (2 * x)) * x = exp (- (x * x))"
    using erf_series_exp [of "x * x"] by (simp add: algebra_simps)
  ultimately have "DERIV (\<lambda>x. x * erf_series (x * x)) x :> exp (- (x * x))" by simp
  then have "DERIV (\<lambda>x. 2 / sqrt pi * (x * erf_series (x * x))) x :> 2 / sqrt pi * exp (- (x * x))"
    by (rule DERIV_cmult)
  then show ?thesis unfolding erf_def [abs_def] .
qed

lemma erf_strict_mono:
  assumes "x < y"
  shows "erf x < erf y"
proof -
  have "\<And>z. \<exists>d. DERIV erf z :> d \<and> 0 < d"
  proof -
    fix z
    have "0 < 2 / sqrt pi * exp (- (z * z))" by simp
    with erf_deriv [of z] show "\<exists>d. DERIV erf z :> d \<and> 0 < d" by blast
  qed
  with assms show ?thesis by (intro DERIV_pos_imp_increasing [of x y erf]) simp_all
qed

lemma erf_mono: "x \<le> y \<Longrightarrow> erf x \<le> erf y"
  using erf_strict_mono [of x y] by (cases "x = y") auto

lemma erf_zero: "erf 0 = 0"
  by (simp add: erf_def)

lemma erf_minus: "erf (- x) = - erf x"
  by (simp add: erf_def)


section \<open>Properties of \<^verbatim>\<open>multi_directions_gaussian_cdfs\<close>\<close>

lemma gaussian_cdf_point_mono:
  assumes "\<forall>s \<in> set stds. 0 < s" and "\<forall>w \<in> set weights. 0 \<le> w" and "x \<le> x'"
  shows "gaussian_cdf_point means stds weights x \<le> gaussian_cdf_point means stds weights x'"
  unfolding gaussian_cdf_point_def
proof (rule sum_list_mono)
  fix z assume zin: "z \<in> set (zip means (zip stds weights))"
  obtain mean std weight where z: "z = (mean, std, weight)" by (cases z) auto
  with zin have "(std, weight) \<in> set (zip stds weights)" by (auto dest: set_zip_rightD)
  then have "std \<in> set stds" and "weight \<in> set weights"
    by (auto dest: set_zip_leftD set_zip_rightD)
  with assms(1,2) have s: "0 < std" and w: "0 \<le> weight" by auto
  from s have "0 < std * sqrt 2" by simp
  with assms(3) have "(x - mean) / (std * sqrt 2) \<le> (x' - mean) / (std * sqrt 2)"
    by (simp add: divide_right_mono)
  then have "erf ((x - mean) / (std * sqrt 2)) \<le> erf ((x' - mean) / (std * sqrt 2))"
    by (rule erf_mono)
  then have "1 / 2 * (1 + erf ((x - mean) / (std * sqrt 2)))
               \<le> 1 / 2 * (1 + erf ((x' - mean) / (std * sqrt 2)))" by simp
  then have "1 / 2 * (1 + erf ((x - mean) / (std * sqrt 2))) * weight
               \<le> 1 / 2 * (1 + erf ((x' - mean) / (std * sqrt 2))) * weight"
    using w by (rule mult_right_mono)
  then show "(case z of (mean, std, weight) \<Rightarrow>
                 1 / 2 * (1 + erf ((x - mean) / (std * sqrt 2))) * weight)
             \<le> (case z of (mean, std, weight) \<Rightarrow>
                 1 / 2 * (1 + erf ((x' - mean) / (std * sqrt 2))) * weight)"
    by (simp add: z)
qed

text \<open>Weights of one sign with a sum that is not zero are non-negative once normalised.\<close>

lemma normalised_weights_nonneg:
  fixes weights :: "real list"
  assumes "(\<forall>w \<in> set weights. 0 \<le> w) \<or> (\<forall>w \<in> set weights. w \<le> 0)"
    and "sum_list weights \<noteq> 0"
  shows "\<forall>w \<in> set (map (\<lambda>w. w / sum_list weights) weights). 0 \<le> w"
proof -
  from assms(1) show ?thesis
  proof
    assume nn: "\<forall>w \<in> set weights. 0 \<le> w"
    then have "0 \<le> sum_list weights" by (simp add: sum_list_nonneg)
    with assms(2) have "0 < sum_list weights" by simp
    with nn show ?thesis by auto
  next
    assume np: "\<forall>w \<in> set weights. w \<le> 0"
    then have "sum_list weights \<le> 0" by (simp add: sum_list_nonpos)
    with assms(2) have "sum_list weights < 0" by simp
    with np show ?thesis by (auto simp: divide_nonpos_neg)
  qed
qed

text \<open>
  Claim C7. For means and stds of the shape directions \<open>\<times>\<close> clusters (stds of any sign:
  they are clamped), and weights of a mixture, that is, all non-negative with a sum that
  is not zero, \<^verbatim>\<open>multi_directions_gaussian_cdfs\<close> returns a matrix of the shape of \<open>x\<close>,
  and within every direction row a point that is not larger gets a CDF value that is not
  larger. Since the weights are divided by their sum, the same holds for weights that
  are all non-positive with a sum that is not zero.
\<close>

theorem multi_directions_gaussian_cdfs_monotone:
  assumes "length means = length x" and "length stds = length x"
    and "\<forall>row \<in> set means. length row = length weights"
    and "\<forall>row \<in> set stds. length row = length weights"
    and "(\<forall>w \<in> set weights. 0 \<le> w) \<or> (\<forall>w \<in> set weights. w \<le> 0)"
    and "sum_list weights \<noteq> 0"
  shows "\<exists>cdf. multi_directions_gaussian_cdfs x means stds weights = Inr cdf
           \<and> length cdf = length x
           \<and> (\<forall>d < length x. length (cdf ! d) = length (x ! d)
                  \<and> (\<forall>p < length (x ! d). \<forall>q < length (x ! d).
                        x ! d ! p \<le> x ! d ! q \<longrightarrow> cdf ! d ! p \<le> cdf ! d ! q))"
proof -
  let ?stds = "map (map (clamp_min (1 / 1000000))) stds"
  let ?w = "map (\<lambda>w. w / sum_list weights) weights"
  let ?cdf = "map (\<lambda>(x_row, means_row, stds_row).
                       map (gaussian_cdf_point means_row stds_row ?w) x_row)
                  (zip x (zip means ?stds))"
  have res: "multi_directions_gaussian_cdfs x means stds weights = Inr ?cdf"
    using assms(1-4,6) by (simp add: multi_directions_gaussian_cdfs_def Let_def list_all_iff)
  have len: "length ?cdf = length x" using assms(1,2) by simp
  have wn: "\<forall>w \<in> set ?w. 0 \<le> w" using assms(5,6) by (rule normalised_weights_nonneg)
  have rows: "\<forall>d < length x. length (?cdf ! d) = length (x ! d)
                  \<and> (\<forall>p < length (x ! d). \<forall>q < length (x ! d).
                        x ! d ! p \<le> x ! d ! q \<longrightarrow> ?cdf ! d ! p \<le> ?cdf ! d ! q)"
  proof (intro allI impI)
    fix d assume d: "d < length x"
    let ?s = "map (clamp_min (1 / 1000000)) (stds ! d)"
    have row: "?cdf ! d = map (gaussian_cdf_point (means ! d) ?s ?w) (x ! d)"
      using d assms(1,2) by simp
    have sp: "\<forall>s \<in> set ?s. 0 < s"
    proof
      fix s assume "s \<in> set ?s"
      then obtain s0 where "s = clamp_min (1 / 1000000) s0" by auto
      moreover have "(1::real) / 1000000 \<le> clamp_min (1 / 1000000) s0" by (rule clamp_min_ge)
      ultimately show "0 < s" by simp
    qed
    have "\<forall>p < length (x ! d). \<forall>q < length (x ! d).
            x ! d ! p \<le> x ! d ! q \<longrightarrow> ?cdf ! d ! p \<le> ?cdf ! d ! q"
    proof (intro allI impI)
      fix p q assume "p < length (x ! d)" and "q < length (x ! d)" and "x ! d ! p \<le> x ! d ! q"
      then show "?cdf ! d ! p \<le> ?cdf ! d ! q"
        unfolding row using gaussian_cdf_point_mono [OF sp wn] by simp
    qed
    then show "length (?cdf ! d) = length (x ! d)
                  \<and> (\<forall>p < length (x ! d). \<forall>q < length (x ! d).
                        x ! d ! p \<le> x ! d ! q \<longrightarrow> ?cdf ! d ! p \<le> ?cdf ! d ! q)"
      unfolding row by simp
  qed
  from res len rows show ?thesis by blast
qed

theorem multi_directions_gaussian_cdfs_monotone_witness:
  "multi_directions_gaussian_cdfs [[0, 1]] [[0, 1]] [[1, - 2]] [1, 3]
     = Inr [[gaussian_cdf_point [0, 1] [1, 1 / 1000000] [1 / 4, 3 / 4] 0,
             gaussian_cdf_point [0, 1] [1, 1 / 1000000] [1 / 4, 3 / 4] 1]]
   \<and> gaussian_cdf_point [0, 1] [1, 1 / 1000000] [1 / 4, 3 / 4] 0
       \<le> gaussian_cdf_point [0, 1] [1, 1 / 1000000] [1 / 4, 3 / 4] 1"
proof -
  have e: "multi_directions_gaussian_cdfs [[0, 1]] [[0, 1]] [[1, - 2]] [1, 3]
     = Inr [[gaussian_cdf_point [0, 1] [1, 1 / 1000000] [1 / 4, 3 / 4] 0,
             gaussian_cdf_point [0, 1] [1, 1 / 1000000] [1 / 4, 3 / 4] 1]]"
    by (simp add: multi_directions_gaussian_cdfs_def Let_def clamp_min_def)
  have a: "length [[0, 1::real]] = length [[0, 1::real]]" by simp
  have b: "length [[1, - 2::real]] = length [[0, 1::real]]" by simp
  have c: "\<forall>row \<in> set [[0, 1::real]]. length row = length [1, 3::real]" by simp
  have d: "\<forall>row \<in> set [[1, - 2::real]]. length row = length [1, 3::real]" by simp
  have f: "(\<forall>w \<in> set [1, 3::real]. 0 \<le> w) \<or> (\<forall>w \<in> set [1, 3::real]. w \<le> 0)" by simp
  have g: "sum_list [1, 3::real] \<noteq> 0" by simp
  from multi_directions_gaussian_cdfs_monotone [OF a b c d f g]
  obtain cdf where r: "multi_directions_gaussian_cdfs [[0, 1]] [[0, 1]] [[1, - 2]] [1, 3] = Inr cdf"
    and m: "\<forall>d < length [[0, 1::real]]. length (cdf ! d) = length ([[0, 1::real]] ! d)
              \<and> (\<forall>p < length ([[0, 1::real]] ! d). \<forall>q < length ([[0, 1::real]] ! d).
                    [[0, 1::real]] ! d ! p \<le> [[0, 1]] ! d ! q \<longrightarrow> cdf ! d ! p \<le> cdf ! d ! q)"
    by blast
  from r e have cdf: "cdf = [[gaussian_cdf_point [0, 1] [1, 1 / 1000000] [1 / 4, 3 / 4] 0,
                              gaussian_cdf_point [0, 1] [1, 1 / 1000000] [1 / 4, 3 / 4] 1]]" by simp
  from m have "cdf ! 0 ! 0 \<le> cdf ! 0 ! 1" by simp
  with e show ?thesis unfolding cdf by simp
qed

text \<open>
  The hypothesis on the signs is needed, since the function itself does not look at the
  signs of the weights it is given: with weights \<open>2, -1\<close>, which no mixture has, means
  \<open>-1, 1/2\<close> and stds \<open>4, 1\<close>, the value at \<open>x = 0\<close> exceeds the value at \<open>x = 1\<close> by
  \<open>erf (1 / (4 * sqrt 2)) > 0\<close>.
\<close>

lemma multi_directions_gaussian_cdfs_mixed_signs:
  "multi_directions_gaussian_cdfs [[0, 1]] [[- 1, 1 / 2]] [[4, 1]] [2, - 1]
     = Inr [[1 / 2 + erf (1 / (4 * sqrt 2)) + erf (1 / (2 * sqrt 2)) / 2,
             1 / 2 + erf (1 / (2 * sqrt 2)) / 2]]
   \<and> 1 / 2 + erf (1 / (2 * sqrt 2)) / 2
       < 1 / 2 + erf (1 / (4 * sqrt 2)) + erf (1 / (2 * sqrt 2)) / 2"
proof -
  have m: "erf (- (1 / (2 * sqrt 2))) = - erf (1 / (2 * sqrt 2))" by (rule erf_minus)
  have e: "multi_directions_gaussian_cdfs [[0, 1]] [[- 1, 1 / 2]] [[4, 1]] [2, - 1]
     = Inr [[1 / 2 + erf (1 / (4 * sqrt 2)) + erf (1 / (2 * sqrt 2)) / 2,
             1 / 2 + erf (1 / (2 * sqrt 2)) / 2]]"
    by (simp add: multi_directions_gaussian_cdfs_def Let_def gaussian_cdf_point_def clamp_min_def m
        add_divide_distrib diff_divide_distrib)
  have "erf 0 < erf (1 / (4 * sqrt 2))" by (rule erf_strict_mono) simp
  then have "0 < erf (1 / (4 * sqrt 2))" by (simp add: erf_zero)
  with e show ?thesis by simp
qed

section \<open>Properties of \<^verbatim>\<open>forward\<close> and \<^verbatim>\<open>invert\<close>\<close>

subsection \<open>Tensors by their entries\<close>

lemma tensor_of_nth:
  "n < N \<Longrightarrow> c < C \<Longrightarrow> h < H \<Longrightarrow> w < W \<Longrightarrow> tensor_of N C H W f ! n ! c ! h ! w = f n c h w"
  by (simp add: tensor_of_def)

lemma tensor_of_cong:
  assumes "\<And>n c h w. n < N \<Longrightarrow> c < C \<Longrightarrow> h < H \<Longrightarrow> w < W \<Longrightarrow> f n c h w = g n c h w"
  shows "tensor_of N C H W f = tensor_of N C H W g"
  unfolding tensor_of_def using assms by simp

lemma tensor_of_sizes:
  assumes "0 < N" and "0 < C" and "0 < H" and "0 < W"
  shows "size0 (tensor_of N C H W f) = N" and "size1 (tensor_of N C H W f) = C"
    and "size2 (tensor_of N C H W f) = H" and "size3 (tensor_of N C H W f) = W"
proof -
  from assms have u: "[0..<N] = 0 # [1..<N]" "[0..<C] = 0 # [1..<C]"
    "[0..<H] = 0 # [1..<H]" "[0..<W] = 0 # [1..<W]"
    by (simp_all add: upt_conv_Cons)
  show "size0 (tensor_of N C H W f) = N" by (simp add: size0_def tensor_of_def)
  show "size1 (tensor_of N C H W f) = C"
    unfolding size1_def tensor_of_def by (subst u(1)) simp
  show "size2 (tensor_of N C H W f) = H"
    unfolding size2_def tensor_of_def by (subst u(1), subst u(2)) simp
  show "size3 (tensor_of N C H W f) = W"
    unfolding size3_def tensor_of_def by (subst u(1), subst u(2), subst u(3)) simp
qed

lemma has_shape_tensor_of:
  "0 < N \<Longrightarrow> 0 < C \<Longrightarrow> 0 < H \<Longrightarrow> 0 < W \<Longrightarrow> has_shape N C H W (tensor_of N C H W f)"
  by (simp add: has_shape_def tensor_of_def list_all_iff)

lemma has_shape_eq_tensor_of:
  assumes "has_shape N C H W t"
  shows "t = tensor_of N C H W (\<lambda>n c h w. t ! n ! c ! h ! w)"
proof -
  from assms have l0: "length t = N"
    and l1: "\<And>n. n < N \<Longrightarrow> length (t ! n) = C"
    and l2: "\<And>n c. n < N \<Longrightarrow> c < C \<Longrightarrow> length (t ! n ! c) = H"
    and l3: "\<And>n c h. n < N \<Longrightarrow> c < C \<Longrightarrow> h < H \<Longrightarrow> length (t ! n ! c ! h) = W"
    by (simp_all add: has_shape_def list_all_length)
  show ?thesis
    unfolding tensor_of_def
    by (intro nth_equalityI) (simp_all add: l0 l1 l2 l3)
qed

lemma has_shape_pos:
  "has_shape N C H W t \<Longrightarrow> 0 < N \<and> 0 < C \<and> 0 < H \<and> 0 < W"
  by (simp add: has_shape_def)

lemma has_shape_sizes:
  assumes "has_shape N C H W t"
  shows "size0 t = N" and "size1 t = C" and "size2 t = H" and "size3 t = W"
proof -
  from has_shape_pos [OF assms] have p: "0 < N" "0 < C" "0 < H" "0 < W" by simp_all
  note e = has_shape_eq_tensor_of [OF assms]
  show "size0 t = N" by (subst e) (rule tensor_of_sizes [OF p])
  show "size1 t = C" by (subst e) (rule tensor_of_sizes [OF p])
  show "size2 t = H" by (subst e) (rule tensor_of_sizes [OF p])
  show "size3 t = W" by (subst e) (rule tensor_of_sizes [OF p])
qed

subsection \<open>The tensor operations by entries\<close>

lemma take_drop_map_upt:
  assumes "b \<le> C"
  shows "take (b - a) (drop a (map g [0..<C])) = map (\<lambda>c. g (a + c)) [0..<b - a]"
proof (rule nth_equalityI)
  show "length (take (b - a) (drop a (map g [0..<C]))) = length (map (\<lambda>c. g (a + c)) [0..<b - a])"
    using assms by simp
next
  fix i assume "i < length (take (b - a) (drop a (map g [0..<C])))"
  then have "i < b - a" by simp
  with assms have "a + i < C" by simp
  with \<open>i < b - a\<close> show "take (b - a) (drop a (map g [0..<C])) ! i = map (\<lambda>c. g (a + c)) [0..<b - a] ! i"
    by simp
qed

lemma chans_range_tensor_of:
  assumes "b \<le> C"
  shows "chans_range a b (tensor_of N C H W f) = tensor_of N (b - a) H W (\<lambda>n c. f n (a + c))"
proof -
  have "\<And>n. take (b - a) (drop a (map (\<lambda>c. map (\<lambda>h. map (\<lambda>w. f n c h w) [0..<W]) [0..<H]) [0..<C]))
          = map (\<lambda>c. map (\<lambda>h. map (\<lambda>w. f n (a + c) h w) [0..<W]) [0..<H]) [0..<b - a]"
    using assms by (rule take_drop_map_upt)
  then show ?thesis unfolding chans_range_def tensor_of_def by simp
qed

lemma chans_upto_tensor_of:
  assumes "b \<le> C"
  shows "chans_upto b (tensor_of N C H W f) = tensor_of N b H W f"
proof -
  have "chans_upto b (tensor_of N C H W f) = chans_range 0 b (tensor_of N C H W f)"
    by (simp add: chans_upto_def chans_range_def)
  then show ?thesis using chans_range_tensor_of [OF assms, of 0 N H W f] by simp
qed

lemma chans_from_tensor_of:
  "chans_from a (tensor_of N C H W f) = tensor_of N (C - a) H W (\<lambda>n c. f n (a + c))"
proof -
  have "chans_from a (tensor_of N C H W f) = chans_range a C (tensor_of N C H W f)"
    by (simp add: chans_from_def chans_range_def tensor_of_def)
  then show ?thesis using chans_range_tensor_of [of C C a N H W f] by simp
qed

lemma concat_map_upt:
  "concat (map (\<lambda>q. map (g q) [0..<C]) [0..<k]) = map (\<lambda>c. g (c div C) (c mod C)) [0..<k * C]"
proof (induction k)
  case 0
  then show ?case by simp
next
  case (Suc k)
  have "[0..<k * C + C] = [0..<k * C] @ [k * C..<k * C + C]"
    by (rule upt_add_eq_append) simp
  moreover have "[k * C..<C + k * C] = map (\<lambda>c. c + k * C) [0..<C]"
    by (rule map_add_upt [symmetric])
  ultimately have "[0..<Suc k * C] = [0..<k * C] @ map (\<lambda>c. c + k * C) [0..<C]"
    by (simp only: mult_Suc add.commute [of C "k * C"])
  moreover have "map (\<lambda>c. g (c div C) (c mod C)) (map (\<lambda>c. c + k * C) [0..<C]) = map (g k) [0..<C]"
    by (simp add: comp_def)
  ultimately show ?case using Suc.IH by simp
qed

lemma product_upt:
  "List.product [0..<s0] [0..<s1] = map (\<lambda>q. (q div s1, q mod s1)) [0..<s0 * s1]"
proof (rule nth_equalityI)
  show "length (List.product [0..<s0] [0..<s1]) = length (map (\<lambda>q. (q div s1, q mod s1)) [0..<s0 * s1])"
    by simp
next
  fix q assume "q < length (List.product [0..<s0] [0..<s1])"
  then have q: "q < s0 * s1" by simp
  then have s1: "0 < s1" by (cases s1) simp_all
  from q have d: "q div s1 < s0" by (simp add: less_mult_imp_div_less)
  from s1 have m: "q mod s1 < s1" by simp
  show "List.product [0..<s0] [0..<s1] ! q = map (\<lambda>q. (q div s1, q mod s1)) [0..<s0 * s1] ! q"
    using q d m by (simp add: product_nth)
qed

lemma cat_chans_alt:
  assumes "ts \<noteq> []" and "\<forall>t \<in> set ts. size0 t = N \<and> size2 t = H \<and> size3 t = W"
  shows "cat_chans ts = Inr (map (\<lambda>n. concat (map (\<lambda>t. t ! n) ts)) [0..<N])"
proof -
  from assms(1) obtain first rest where ts: "ts = first # rest" by (cases ts) auto
  with assms(2) have f: "size0 first = N" "size2 first = H" "size3 first = W" by simp_all
  have "list_all (\<lambda>t. size0 t = size0 first \<and> size2 t = size2 first \<and> size3 t = size3 first) ts"
    using assms(2) f by (simp add: list_all_iff)
  then show ?thesis unfolding cat_chans_def by (simp add: ts f)
qed

lemma cat_chans_one:
  assumes "has_shape N C H W t"
  shows "cat_chans [t] = Inr t"
proof -
  have "cat_chans [t] = Inr (map (\<lambda>n. concat (map (\<lambda>t. t ! n) [t])) [0..<N])"
    using has_shape_sizes [OF assms] by (intro cat_chans_alt [where H = H and W = W]) simp_all
  moreover have "map (\<lambda>n. t ! n) [0..<N] = t"
    using has_shape_sizes(1) [OF assms] map_nth [of t] by (simp add: size0_def)
  ultimately show ?thesis by simp
qed

lemma cat_chans_two:
  assumes "0 < N" and "0 < C1" and "0 < C2" and "0 < H" and "0 < W"
  shows "cat_chans [tensor_of N C1 H W f1, tensor_of N C2 H W f2]
           = Inr (tensor_of N (C1 + C2) H W (\<lambda>n c. if c < C1 then f1 n c else f2 n (c - C1)))"
proof -
  let ?t1 = "tensor_of N C1 H W f1" and ?t2 = "tensor_of N C2 H W f2"
  have cat: "cat_chans [?t1, ?t2] = Inr (map (\<lambda>n. concat (map (\<lambda>t. t ! n) [?t1, ?t2])) [0..<N])"
    using assms by (intro cat_chans_alt [where H = H and W = W]) (simp_all add: tensor_of_sizes)
  have "map (\<lambda>n. concat (map (\<lambda>t. t ! n) [?t1, ?t2])) [0..<N]
          = tensor_of N (C1 + C2) H W (\<lambda>n c. if c < C1 then f1 n c else f2 n (c - C1))"
  proof -
    have "\<And>n. n < N \<Longrightarrow> ?t1 ! n @ ?t2 ! n
            = map (\<lambda>c. map (\<lambda>h. map (\<lambda>w. if c < C1 then f1 n c h w else f2 n (c - C1) h w) [0..<W]) [0..<H])
                [0..<C1 + C2]"
    proof -
      fix n assume n: "n < N"
      have "[0..<C1 + C2] = [0..<C1] @ map (\<lambda>c. c + C1) [0..<C2]"
        using upt_add_eq_append [of 0 C1 C2] map_add_upt [of C1 C2] by (simp add: add.commute)
      then show "?t1 ! n @ ?t2 ! n
            = map (\<lambda>c. map (\<lambda>h. map (\<lambda>w. if c < C1 then f1 n c h w else f2 n (c - C1) h w) [0..<W]) [0..<H])
                [0..<C1 + C2]"
        using n by (simp add: tensor_of_def comp_def)
    qed
    then show ?thesis unfolding tensor_of_def by simp
  qed
  with cat show ?thesis by simp
qed

lemma cat_chans_blocks:
  assumes "0 < N" and "0 < C" and "0 < H" and "0 < W" and "0 < k"
  shows "cat_chans (map (\<lambda>q. tensor_of N C H W (f q)) [0..<k])
           = Inr (tensor_of N (k * C) H W (\<lambda>n c. f (c div C) n (c mod C)))"
proof -
  let ?ts = "map (\<lambda>q. tensor_of N C H W (f q)) [0..<k]"
  from assms(5) have ne: "?ts \<noteq> []" by simp
  have cat: "cat_chans ?ts = Inr (map (\<lambda>n. concat (map (\<lambda>t. t ! n) ?ts)) [0..<N])"
    using ne assms by (intro cat_chans_alt [where H = H and W = W]) (auto simp: tensor_of_sizes)
  have "\<And>n. n < N \<Longrightarrow> concat (map (\<lambda>t. t ! n) ?ts)
          = map (\<lambda>c. map (\<lambda>h. map (\<lambda>w. f (c div C) n (c mod C) h w) [0..<W]) [0..<H]) [0..<k * C]"
  proof -
    fix n assume n: "n < N"
    have "concat (map (\<lambda>t. t ! n) ?ts)
            = concat (map (\<lambda>q. map (\<lambda>c. map (\<lambda>h. map (\<lambda>w. f q n c h w) [0..<W]) [0..<H]) [0..<C]) [0..<k])"
      using n by (simp add: tensor_of_def comp_def)
    also have "\<dots> = map (\<lambda>c. map (\<lambda>h. map (\<lambda>w. f (c div C) n (c mod C) h w) [0..<W]) [0..<H]) [0..<k * C]"
      by (rule concat_map_upt)
    finally show "concat (map (\<lambda>t. t ! n) ?ts)
          = map (\<lambda>c. map (\<lambda>h. map (\<lambda>w. f (c div C) n (c mod C) h w) [0..<W]) [0..<H]) [0..<k * C]" .
  qed
  then have "map (\<lambda>n. concat (map (\<lambda>t. t ! n) ?ts)) [0..<N]
          = tensor_of N (k * C) H W (\<lambda>n c. f (c div C) n (c mod C))"
    unfolding tensor_of_def by simp
  with cat show ?thesis by simp
qed

lemma map2_map_upt:
  "map2 f (map g [0..<n]) (map h [0..<n]) = map (\<lambda>i. f (g i) (h i)) [0..<n]"
  by (rule nth_equalityI) simp_all

lemma t_add_tensor_of:
  assumes "0 < N" and "0 < C" and "0 < H" and "0 < W"
  shows "t_add (tensor_of N C H W f) (tensor_of N C H W g)
           = Inr (tensor_of N C H W (\<lambda>n c h w. f n c h w + g n c h w))"
proof -
  have "map2 (map2 (map2 (map2 (+)))) (tensor_of N C H W f) (tensor_of N C H W g)
          = tensor_of N C H W (\<lambda>n c h w. f n c h w + g n c h w)"
    unfolding tensor_of_def by (simp only: map2_map_upt)
  then show ?thesis using assms by (simp add: t_add_def same_shape_def tensor_of_sizes)
qed

lemma t_sub_tensor_of:
  assumes "0 < N" and "0 < C" and "0 < H" and "0 < W"
  shows "t_sub (tensor_of N C H W f) (tensor_of N C H W g)
           = Inr (tensor_of N C H W (\<lambda>n c h w. f n c h w - g n c h w))"
proof -
  have "map2 (map2 (map2 (map2 (-)))) (tensor_of N C H W f) (tensor_of N C H W g)
          = tensor_of N C H W (\<lambda>n c h w. f n c h w - g n c h w)"
    unfolding tensor_of_def by (simp only: map2_map_upt)
  then show ?thesis using assms by (simp add: t_sub_def same_shape_def tensor_of_sizes)
qed

lemma stride_count:
  assumes "0 < s" and "i < s"
  shows "(H' * s - i + s - 1) div s = (H' :: nat)"
proof (cases H')
  case 0
  with assms show ?thesis by simp
next
  case (Suc m)
  define X where "X = H' * s"
  from Suc have "s \<le> X" by (simp add: X_def)
  with assms have lo: "X \<le> X - i + s - 1" and hi: "X - i + s - 1 < X + s" by linarith+
  have "(X - i + s - 1) div s = H'"
  proof (rule div_nat_eqI)
    show "s * H' \<le> X - i + s - 1" using lo by (simp add: X_def mult.commute)
    show "X - i + s - 1 < s * Suc H'" using hi by (simp add: X_def mult.commute)
  qed
  then show ?thesis by (simp only: X_def)
qed

lemma stride_slice_map_upt:
  assumes "0 < s" and "i < s"
  shows "stride_slice i s (map g [0..<H' * s]) = map (\<lambda>k. g (i + k * s)) [0..<H']"
proof -
  have inr: "\<And>k. k < H' \<Longrightarrow> i + k * s < H' * s"
  proof -
    fix k assume "k < H'"
    then have "Suc k * s \<le> H' * s" by (intro mult_le_mono1) simp
    with assms(2) show "i + k * s < H' * s" by simp
  qed
  have "stride_slice i s (map g [0..<H' * s])
          = map (\<lambda>k. map g [0..<H' * s] ! (i + k * s)) [0..<H']"
    unfolding stride_slice_def
    by (simp only: length_map length_upt diff_zero stride_count [OF assms])
  also have "\<dots> = map (\<lambda>k. g (i + k * s)) [0..<H']"
    using inr by simp
  finally show ?thesis .
qed

lemma subsample_tensor_of:
  assumes "0 < s0" and "0 < s1" and "i < s0" and "j < s1"
  shows "subsample i j s0 s1 (tensor_of N C (H' * s0) (W' * s1) f)
           = tensor_of N C H' W' (\<lambda>n c h w. f n c (i + h * s0) (j + w * s1))"
proof -
  have "\<And>n c. map (stride_slice j s1)
              (stride_slice i s0 (map (\<lambda>h. map (\<lambda>w. f n c h w) [0..<W' * s1]) [0..<H' * s0]))
          = map (\<lambda>h. map (\<lambda>w. f n c (i + h * s0) (j + w * s1)) [0..<W']) [0..<H']"
    by (simp add: stride_slice_map_upt [OF assms(1,3)] stride_slice_map_upt [OF assms(2,4)])
  then show ?thesis unfolding subsample_def tensor_of_def by simp
qed

lemma strided_position:
  assumes "i < (s::nat)"
  shows "(i \<le> h \<and> (h - i) mod s = 0) \<longleftrightarrow> h mod s = i"
    and "h mod s = i \<Longrightarrow> (h - i) div s = h div s"
proof -
  show "(i \<le> h \<and> (h - i) mod s = 0) \<longleftrightarrow> h mod s = i"
  proof
    assume a: "i \<le> h \<and> (h - i) mod s = 0"
    then obtain q where "h - i = s * q" by (auto simp: mod_eq_0_iff_dvd dvd_def)
    with a have "h = i + s * q" by simp
    with assms show "h mod s = i" by simp
  next
    assume m: "h mod s = i"
    then have le: "i \<le> h" by (metis mod_less_eq_dividend)
    have "h = (h div s) * s + h mod s" by simp
    with m have "h - i = (h div s) * s" by simp
    with le show "i \<le> h \<and> (h - i) mod s = 0" by simp
  qed
  show "h mod s = i \<Longrightarrow> (h - i) div s = h div s"
  proof -
    assume m: "h mod s = i"
    have "h = (h div s) * s + h mod s" by simp
    with m have "h - i = (h div s) * s" by simp
    with assms show "(h - i) div s = h div s" by simp
  qed
qed

lemma assign_strided_tensor_of:
  assumes "0 < N" and "0 < C" and "0 < H'" and "0 < W'"
    and "i < s0" and "j < s1"
  shows "assign_strided (tensor_of N C (H' * s0) (W' * s1) f) i j s0 s1 (tensor_of N C H' W' g)
           = Inr (tensor_of N C (H' * s0) (W' * s1)
                    (\<lambda>n c h w. if h mod s0 = i \<and> w mod s1 = j
                                then g n c (h div s0) (w div s1) else f n c h w))"
proof -
  from assms(5,6) have s: "0 < s0" "0 < s1" by simp_all
  let ?prev = "tensor_of N C (H' * s0) (W' * s1) f"
  let ?src = "tensor_of N C H' W' g"
  have sub: "subsample i j s0 s1 ?prev
               = tensor_of N C H' W' (\<lambda>n c h w. f n c (i + h * s0) (j + w * s1))"
    using s assms(5,6) by (rule subsample_tensor_of)
  have same: "same_shape (subsample i j s0 s1 ?prev) ?src"
    unfolding sub same_shape_def using assms(1-4) by (simp add: tensor_of_sizes)
  have sz: "size0 ?prev = N" "size1 ?prev = C" "size2 ?prev = H' * s0" "size3 ?prev = W' * s1"
    using assms(1-4) s by (simp_all add: tensor_of_sizes)
  have "tensor_of N C (H' * s0) (W' * s1)
          (\<lambda>n c h w. if i \<le> h \<and> (h - i) mod s0 = 0 \<and> j \<le> w \<and> (w - j) mod s1 = 0
                      then ?src ! n ! c ! ((h - i) div s0) ! ((w - j) div s1)
                      else ?prev ! n ! c ! h ! w)
        = tensor_of N C (H' * s0) (W' * s1)
            (\<lambda>n c h w. if h mod s0 = i \<and> w mod s1 = j
                        then g n c (h div s0) (w div s1) else f n c h w)"
  proof (rule tensor_of_cong)
    fix n c h w assume r: "n < N" "c < C" "h < H' * s0" "w < W' * s1"
    have c1: "(i \<le> h \<and> (h - i) mod s0 = 0) \<longleftrightarrow> h mod s0 = i"
      using assms(5) by (rule strided_position)
    have c2: "(j \<le> w \<and> (w - j) mod s1 = 0) \<longleftrightarrow> w mod s1 = j"
      using assms(6) by (rule strided_position)
    from r(3) s have hd: "h div s0 < H'" by (simp add: less_mult_imp_div_less)
    from r(4) s have wd: "w div s1 < W'" by (simp add: less_mult_imp_div_less)
    show "(if i \<le> h \<and> (h - i) mod s0 = 0 \<and> j \<le> w \<and> (w - j) mod s1 = 0
           then ?src ! n ! c ! ((h - i) div s0) ! ((w - j) div s1)
           else ?prev ! n ! c ! h ! w)
        = (if h mod s0 = i \<and> w mod s1 = j
           then g n c (h div s0) (w div s1) else f n c h w)"
    proof (cases "h mod s0 = i \<and> w mod s1 = j")
      case True
      then have d: "(h - i) div s0 = h div s0" "(w - j) div s1 = w div s1"
        using strided_position(2) [OF assms(5)] strided_position(2) [OF assms(6)] by simp_all
      from True have "i \<le> h \<and> (h - i) mod s0 = 0" and "j \<le> w \<and> (w - j) mod s1 = 0"
        by (simp_all only: c1 c2)
      then have A: "i \<le> h \<and> (h - i) mod s0 = 0 \<and> j \<le> w \<and> (w - j) mod s1 = 0"
        by simp
      have "?src ! n ! c ! (h div s0) ! (w div s1) = g n c (h div s0) (w div s1)"
        using r(1,2) hd wd by (rule tensor_of_nth)
      then show ?thesis unfolding if_P [OF A] if_P [OF True] d .
    next
      case False
      have nA: "\<not> (i \<le> h \<and> (h - i) mod s0 = 0 \<and> j \<le> w \<and> (w - j) mod s1 = 0)"
      proof
        assume "i \<le> h \<and> (h - i) mod s0 = 0 \<and> j \<le> w \<and> (w - j) mod s1 = 0"
        then have "i \<le> h \<and> (h - i) mod s0 = 0" and "j \<le> w \<and> (w - j) mod s1 = 0"
          by simp_all
        then have "h mod s0 = i" and "w mod s1 = j" by (simp_all only: c1 c2)
        with False show False by simp
      qed
      have "?prev ! n ! c ! h ! w = f n c h w"
        using r by (rule tensor_of_nth)
      then show ?thesis unfolding if_not_P [OF nA] if_not_P [OF False] .
    qed
  qed
  then show ?thesis unfolding assign_strided_def using same by (simp add: sz)
qed

subsection \<open>One \<^verbatim>\<open>ReversibleBlock\<close>\<close>

lemma block_roundtrip:
  assumes x: "has_shape N C H W x" and ev: "even C"
    and F: "keeps_shape N (C div 2) H W F" and G: "keeps_shape N (C div 2) H W G"
  shows "\<exists>y. forward_stage (ReversibleBlock F G) x = Inr y \<and> has_shape N C H W y
           \<and> invert_stage (ReversibleBlock F G) y = Inr x"
proof -
  define k where "k = C div 2"
  from has_shape_pos [OF x] have p: "0 < N" "0 < C" "0 < H" "0 < W" by simp_all
  from ev p(2) have C: "C = k + k" and k: "0 < k" by (auto simp: k_def elim: evenE)
  define xf where "xf = (\<lambda>n c h w. x ! n ! c ! h ! w)"
  have xe: "x = tensor_of N C H W xf"
    unfolding xf_def using x by (rule has_shape_eq_tensor_of)
  define x1 where "x1 = tensor_of N k H W xf"
  define x2 where "x2 = tensor_of N k H W (\<lambda>n c. xf n (k + c))"
  have cu: "chans_upto k x = x1"
    unfolding xe x1_def by (rule chans_upto_tensor_of) (simp add: C)
  have cf: "chans_from k x = x2"
    unfolding xe x2_def using chans_from_tensor_of [of k N C H W xf] by (simp add: C)
  have x1s: "has_shape N k H W x1" unfolding x1_def using p k by (intro has_shape_tensor_of)
  define ff where "ff = (\<lambda>n c h w. F x1 ! n ! c ! h ! w)"
  have Fe: "F x1 = tensor_of N k H W ff"
    unfolding ff_def using F x1s by (intro has_shape_eq_tensor_of) (simp add: keeps_shape_def k_def)
  define y1 where "y1 = tensor_of N k H W (\<lambda>n c h w. ff n c h w + xf n (k + c) h w)"
  have a1: "t_add (F x1) x2 = Inr y1"
    unfolding Fe x2_def y1_def using p k by (intro t_add_tensor_of)
  have y1s: "has_shape N k H W y1" unfolding y1_def using p k by (intro has_shape_tensor_of)
  define gf where "gf = (\<lambda>n c h w. G y1 ! n ! c ! h ! w)"
  have Ge: "G y1 = tensor_of N k H W gf"
    unfolding gf_def using G y1s by (intro has_shape_eq_tensor_of) (simp add: keeps_shape_def k_def)
  define y2 where "y2 = tensor_of N k H W (\<lambda>n c h w. gf n c h w + xf n c h w)"
  have a2: "t_add (G y1) x1 = Inr y2"
    unfolding Ge x1_def y2_def using p k by (intro t_add_tensor_of)
  define yf where "yf = (\<lambda>n c h w. if c < k then ff n c h w + xf n (k + c) h w
                                     else gf n (c - k) h w + xf n (c - k) h w)"
  define y where "y = tensor_of N C H W yf"
  have cat: "cat_chans [y1, y2] = Inr y"
  proof -
    have "cat_chans [y1, y2]
            = Inr (tensor_of N (k + k) H W
                    (\<lambda>n c. if c < k then (\<lambda>h w. ff n c h w + xf n (k + c) h w)
                            else (\<lambda>h w. gf n (c - k) h w + xf n (c - k) h w)))"
      unfolding y1_def y2_def using p k by (intro cat_chans_two)
    also have "tensor_of N (k + k) H W
                    (\<lambda>n c. if c < k then (\<lambda>h w. ff n c h w + xf n (k + c) h w)
                            else (\<lambda>h w. gf n (c - k) h w + xf n (c - k) h w)) = y"
      unfolding y_def C by (rule tensor_of_cong) (simp add: yf_def)
    finally show ?thesis .
  qed
  have s1x: "size1 x = C" using x by (rule has_shape_sizes)
  have fwd: "forward_stage (ReversibleBlock F G) x = Inr y"
    using ev by (simp add: s1x Let_def k_def [symmetric] cu cf a1 a2 cat)
  have ys: "has_shape N C H W y" unfolding y_def using p by (intro has_shape_tensor_of)
  have s1y: "size1 y = C" using ys by (rule has_shape_sizes)
  have cuy: "chans_upto k y = y1"
  proof -
    have "chans_upto k y = tensor_of N k H W yf"
      unfolding y_def by (rule chans_upto_tensor_of) (simp add: C)
    also have "\<dots> = y1" unfolding y1_def by (rule tensor_of_cong) (simp add: yf_def)
    finally show ?thesis .
  qed
  have cfy: "chans_from k y = y2"
  proof -
    have "chans_from k y = tensor_of N k H W (\<lambda>n c. yf n (k + c))"
      unfolding y_def using chans_from_tensor_of [of k N C H W yf] by (simp add: C)
    also have "\<dots> = y2" unfolding y2_def by (rule tensor_of_cong) (simp add: yf_def)
    finally show ?thesis .
  qed
  have s1: "t_sub y2 (G y1) = Inr x1"
  proof -
    have "t_sub y2 (G y1) = Inr (tensor_of N k H W (\<lambda>n c h w. (gf n c h w + xf n c h w) - gf n c h w))"
      unfolding Ge y2_def using p k by (intro t_sub_tensor_of)
    also have "tensor_of N k H W (\<lambda>n c h w. (gf n c h w + xf n c h w) - gf n c h w) = x1"
      unfolding x1_def by (rule tensor_of_cong) simp
    finally show ?thesis .
  qed
  have s2: "t_sub y1 (F x1) = Inr x2"
  proof -
    have "t_sub y1 (F x1)
            = Inr (tensor_of N k H W (\<lambda>n c h w. (ff n c h w + xf n (k + c) h w) - ff n c h w))"
      unfolding Fe y1_def using p k by (intro t_sub_tensor_of)
    also have "tensor_of N k H W (\<lambda>n c h w. (ff n c h w + xf n (k + c) h w) - ff n c h w) = x2"
      unfolding x2_def by (rule tensor_of_cong) simp
    finally show ?thesis .
  qed
  have catx: "cat_chans [x1, x2] = Inr x"
  proof -
    have "cat_chans [x1, x2]
            = Inr (tensor_of N (k + k) H W (\<lambda>n c. if c < k then xf n c else xf n (k + (c - k))))"
      unfolding x1_def x2_def using p k by (intro cat_chans_two)
    also have "tensor_of N (k + k) H W (\<lambda>n c. if c < k then xf n c else xf n (k + (c - k))) = x"
      unfolding xe C by (rule tensor_of_cong) simp
    finally show ?thesis .
  qed
  have inv: "invert_stage (ReversibleBlock F G) y = Inr x"
    by (simp add: s1y Let_def k_def [symmetric] cuy cfy s1 s2 catx)
  from fwd ys inv show ?thesis by blast
qed

subsection \<open>One piece of a \<^verbatim>\<open>SubsampleSplitter\<close>\<close>

lemma subsamples_tensor_of:
  assumes "0 < s0" and "0 < s1"
  shows "concat (map (\<lambda>i. map (\<lambda>j. subsample i j s0 s1 (tensor_of N C (H' * s0) (W' * s1) f))
                         [0..<s1]) [0..<s0])
           = map (\<lambda>q. tensor_of N C H' W'
                    (\<lambda>n c h w. f n c (q div s1 + h * s0) (q mod s1 + w * s1))) [0..<s0 * s1]"
proof -
  let ?t = "tensor_of N C (H' * s0) (W' * s1) f"
  have "concat (map (\<lambda>i. map (\<lambda>j. subsample i j s0 s1 ?t) [0..<s1]) [0..<s0])
          = map (\<lambda>q. subsample (q div s1) (q mod s1) s0 s1 ?t) [0..<s0 * s1]"
    by (rule concat_map_upt)
  also have "\<dots> = map (\<lambda>q. tensor_of N C H' W'
                    (\<lambda>n c h w. f n c (q div s1 + h * s0) (q mod s1 + w * s1))) [0..<s0 * s1]"
  proof (rule map_cong [OF refl])
    fix q assume "q \<in> set [0..<s0 * s1]"
    then have "q < s0 * s1" by simp
    then have d: "q div s1 < s0" by (simp add: less_mult_imp_div_less)
    from assms(2) have m: "q mod s1 < s1" by simp
    show "subsample (q div s1) (q mod s1) s0 s1 ?t
            = tensor_of N C H' W' (\<lambda>n c h w. f n c (q div s1 + h * s0) (q mod s1 + w * s1))"
      using assms d m by (rule subsample_tensor_of)
  qed
  finally show ?thesis .
qed

lemma forward_piece:
  assumes "0 < N" and "0 < C" and "0 < H'" and "0 < W'" and "0 < s0" and "0 < s1"
  shows "cat_chans (concat (map (\<lambda>i. map (\<lambda>j. subsample i j s0 s1
                        (tensor_of N C (H' * s0) (W' * s1) f)) [0..<s1]) [0..<s0]))
           = Inr (tensor_of N (s0 * s1 * C) H' W' (piece_entries s0 s1 C f))"
proof -
  have "cat_chans (map (\<lambda>q. tensor_of N C H' W'
                    (\<lambda>n c h w. f n c (q div s1 + h * s0) (q mod s1 + w * s1))) [0..<s0 * s1])
          = Inr (tensor_of N (s0 * s1 * C) H' W'
                  (\<lambda>n c. (\<lambda>h w. f n (c mod C) ((c div C) div s1 + h * s0) ((c div C) mod s1 + w * s1))))"
    using assms by (intro cat_chans_blocks) simp_all
  then show ?thesis
    unfolding subsamples_tensor_of [OF assms(5,6)] piece_entries_def [abs_def] .
qed

lemma position_index:
  assumes "0 < s1"
  shows "(h mod s0 = k div s1 \<and> w mod s1 = k mod s1) \<longleftrightarrow> (h mod s0) * s1 + w mod s1 = (k::nat)"
proof
  assume "h mod s0 = k div s1 \<and> w mod s1 = k mod s1"
  then show "(h mod s0) * s1 + w mod s1 = k" by simp
next
  assume e: "(h mod s0) * s1 + w mod s1 = k"
  from assms have "w mod s1 < s1" by simp
  then have "((h mod s0) * s1 + w mod s1) div s1 = h mod s0"
    and "((h mod s0) * s1 + w mod s1) mod s1 = w mod s1" by simp_all
  with e show "h mod s0 = k div s1 \<and> w mod s1 = k mod s1" by simp
qed

lemma assign_loop_tensor_of:
  assumes p: "0 < N" "0 < C" "0 < H'" "0 < W'" "0 < s0" "0 < s1"
    and k: "k \<le> s0 * s1"
  shows "assign_loop (tensor_of N (s0 * s1 * C) H' W' y) C (s0, s1)
           (map (\<lambda>q. (q div s1, q mod s1)) [k..<s0 * s1]) k
           (tensor_of N C (H' * s0) (W' * s1) (partly_assigned s0 s1 C y k))
         = Inr (tensor_of N C (H' * s0) (W' * s1) (partly_assigned s0 s1 C y (s0 * s1)))"
  using k
proof (induction "s0 * s1 - k" arbitrary: k)
  case 0
  then have "k = s0 * s1" by simp
  then show ?case by simp
next
  case (Suc m)
  then have lt: "k < s0 * s1" by simp
  then have u: "[k..<s0 * s1] = k # [Suc k..<s0 * s1]" by (rule upt_conv_Cons)
  let ?Y = "tensor_of N (s0 * s1 * C) H' W' y"
  let ?P = "\<lambda>k. tensor_of N C (H' * s0) (W' * s1) (partly_assigned s0 s1 C y k)"
  from lt have d: "k div s1 < s0" by (simp add: less_mult_imp_div_less)
  from p(6) have md: "k mod s1 < s1" by simp
  have "Suc k * C \<le> s0 * s1 * C" using lt by (intro mult_le_mono1) simp
  then have le: "k * C + C \<le> s0 * s1 * C" by simp
  have src: "chans_range (k * C) (k * C + C) ?Y = tensor_of N C H' W' (\<lambda>n c. y n (k * C + c))"
    using chans_range_tensor_of [OF le, of "k * C" N H' W' y] by simp
  have "assign_strided (?P k) (k div s1) (k mod s1) s0 s1 (tensor_of N C H' W' (\<lambda>n c. y n (k * C + c)))
          = Inr (tensor_of N C (H' * s0) (W' * s1)
                  (\<lambda>n c h w. if h mod s0 = k div s1 \<and> w mod s1 = k mod s1
                              then y n (k * C + c) (h div s0) (w div s1)
                              else partly_assigned s0 s1 C y k n c h w))"
    using p(1-4) d md by (rule assign_strided_tensor_of)
  also have "tensor_of N C (H' * s0) (W' * s1)
                  (\<lambda>n c h w. if h mod s0 = k div s1 \<and> w mod s1 = k mod s1
                              then y n (k * C + c) (h div s0) (w div s1)
                              else partly_assigned s0 s1 C y k n c h w) = ?P (Suc k)"
  proof (rule tensor_of_cong)
    fix n c h w
    show "(if h mod s0 = k div s1 \<and> w mod s1 = k mod s1
           then y n (k * C + c) (h div s0) (w div s1)
           else partly_assigned s0 s1 C y k n c h w) = partly_assigned s0 s1 C y (Suc k) n c h w"
      unfolding position_index [OF p(6)] partly_assigned_def by auto
  qed
  finally have step: "assign_strided (?P k) (k div s1) (k mod s1) s0 s1
                        (chans_range (k * C) (k * C + C) ?Y) = Inr (?P (Suc k))"
    unfolding src .
  have IH: "assign_loop ?Y C (s0, s1) (map (\<lambda>q. (q div s1, q mod s1)) [Suc k..<s0 * s1]) (Suc k)
              (?P (Suc k)) = Inr (?P (s0 * s1))"
    using Suc.hyps(2) lt by (intro Suc.hyps(1)) simp_all
  show ?case unfolding u by (simp add: step IH)
qed

lemma invert_piece_tensor_of:
  assumes p: "0 < N" "0 < C" "0 < H'" "0 < W'" "0 < s0" "0 < s1"
  shows "invert_piece (s0, s1) (tensor_of N (s0 * s1 * C) H' W' y)
           = Inr (tensor_of N C (H' * s0) (W' * s1)
                    (\<lambda>n c h w. y n (((h mod s0) * s1 + w mod s1) * C + c) (h div s0) (w div s1)))"
proof -
  let ?Y = "tensor_of N (s0 * s1 * C) H' W' y"
  from p have S: "0 < s0 * s1 * C" by simp
  have sz: "size0 ?Y = N" "size1 ?Y = s0 * s1 * C" "size2 ?Y = H'" "size3 ?Y = W'"
    using p(1) S p(3,4) by (simp_all add: tensor_of_sizes)
  from p(5,6) have dv: "s0 * s1 * C div (s0 * s1) = C" by simp
  have z: "zeros N C (H' * s0) (W' * s1)
             = tensor_of N C (H' * s0) (W' * s1) (partly_assigned s0 s1 C y 0)"
    unfolding zeros_def by (rule tensor_of_cong) (simp add: partly_assigned_def)
  have fin: "tensor_of N C (H' * s0) (W' * s1) (partly_assigned s0 s1 C y (s0 * s1))
               = tensor_of N C (H' * s0) (W' * s1)
                    (\<lambda>n c h w. y n (((h mod s0) * s1 + w mod s1) * C + c) (h div s0) (w div s1))"
  proof (rule tensor_of_cong)
    fix n c h w
    from p(5) have "h mod s0 < s0" by simp
    then have "Suc (h mod s0) * s1 \<le> s0 * s1" by (intro mult_le_mono1) simp
    moreover from p(6) have "w mod s1 < s1" by simp
    ultimately have "(h mod s0) * s1 + w mod s1 < s0 * s1" by simp
    then show "partly_assigned s0 s1 C y (s0 * s1) n c h w
                 = y n (((h mod s0) * s1 + w mod s1) * C + c) (h div s0) (w div s1)"
      by (simp add: partly_assigned_def)
  qed
  have "invert_piece (s0, s1) ?Y
          = assign_loop ?Y C (s0, s1) (map (\<lambda>q. (q div s1, q mod s1)) [0..<s0 * s1]) 0
              (tensor_of N C (H' * s0) (W' * s1) (partly_assigned s0 s1 C y 0))"
    unfolding invert_piece_def by (simp add: sz dv Let_def product_upt z)
  also have "\<dots> = Inr (tensor_of N C (H' * s0) (W' * s1) (partly_assigned s0 s1 C y (s0 * s1)))"
    using p by (intro assign_loop_tensor_of) simp_all
  finally show ?thesis unfolding fin .
qed

lemma piece_roundtrip:
  assumes p: "0 < N" "0 < C" "0 < H'" "0 < W'" "0 < s0" "0 < s1"
  shows "invert_piece (s0, s1) (tensor_of N (s0 * s1 * C) H' W' (piece_entries s0 s1 C f))
           = Inr (tensor_of N C (H' * s0) (W' * s1) f)"
proof -
  have "tensor_of N C (H' * s0) (W' * s1)
          (\<lambda>n c h w. piece_entries s0 s1 C f n (((h mod s0) * s1 + w mod s1) * C + c) (h div s0) (w div s1))
        = tensor_of N C (H' * s0) (W' * s1) f"
  proof (rule tensor_of_cong)
    fix n c h w assume c: "c < C"
    from p(6) have wm: "w mod s1 < s1" by simp
    let ?q = "(h mod s0) * s1 + w mod s1"
    from c have "(?q * C + c) mod C = c" and "(?q * C + c) div C = ?q" by simp_all
    moreover from wm have "?q div s1 = h mod s0" and "?q mod s1 = w mod s1" by simp_all
    ultimately show "piece_entries s0 s1 C f n (?q * C + c) (h div s0) (w div s1) = f n c h w"
      by (simp add: piece_entries_def)
  qed
  then show ?thesis using invert_piece_tensor_of [OF p, of "piece_entries s0 s1 C f"] by simp
qed

subsection \<open>One \<^verbatim>\<open>SubsampleSplitter\<close>\<close>

lemma cat_chans_append:
  assumes "A \<noteq> []" and "B \<noteq> []"
    and sz: "\<forall>t \<in> set A \<union> set B. size0 t = N \<and> size2 t = H \<and> size3 t = W"
    and a: "cat_chans A = Inr ta" and b: "cat_chans B = Inr tb"
    and ta: "size0 ta = N \<and> size2 ta = H \<and> size3 ta = W"
    and tb: "size0 tb = N \<and> size2 tb = H \<and> size3 tb = W"
  shows "cat_chans (A @ B) = cat_chans [ta, tb]"
proof -
  have ea: "ta = map (\<lambda>n. concat (map (\<lambda>t. t ! n) A)) [0..<N]"
    using cat_chans_alt [OF assms(1), of N H W] sz a by simp
  have eb: "tb = map (\<lambda>n. concat (map (\<lambda>t. t ! n) B)) [0..<N]"
    using cat_chans_alt [OF assms(2), of N H W] sz b by simp
  from assms(1) have ne: "A @ B \<noteq> []" by simp
  have "cat_chans (A @ B) = Inr (map (\<lambda>n. concat (map (\<lambda>t. t ! n) (A @ B))) [0..<N])"
    using ne sz by (intro cat_chans_alt [where H = H and W = W]) simp_all
  moreover have "cat_chans [ta, tb] = Inr (map (\<lambda>n. concat (map (\<lambda>t. t ! n) [ta, tb])) [0..<N])"
    using ta tb by (intro cat_chans_alt [where H = H and W = W]) simp_all
  moreover have "map (\<lambda>n. concat (map (\<lambda>t. t ! n) (A @ B))) [0..<N]
                   = map (\<lambda>n. concat (map (\<lambda>t. t ! n) [ta, tb])) [0..<N]"
  proof (rule map_cong [OF refl])
    fix n assume "n \<in> set [0..<N]"
    then have n: "n < N" by simp
    have "ta ! n = concat (map (\<lambda>t. t ! n) A)" by (subst ea) (simp add: n)
    moreover have "tb ! n = concat (map (\<lambda>t. t ! n) B)" by (subst eb) (simp add: n)
    ultimately show "concat (map (\<lambda>t. t ! n) (A @ B)) = concat (map (\<lambda>t. t ! n) [ta, tb])"
      by simp
  qed
  ultimately show ?thesis by simp
qed

lemma subsamples_nonempty_sizes:
  assumes p: "0 < N" "0 < C" "0 < H'" "0 < W'" "0 < s0" "0 < s1"
  shows "concat (map (\<lambda>i. map (\<lambda>j. subsample i j s0 s1
                        (tensor_of N C (H' * s0) (W' * s1) f)) [0..<s1]) [0..<s0]) \<noteq> []
         \<and> (\<forall>t \<in> set (concat (map (\<lambda>i. map (\<lambda>j. subsample i j s0 s1
                        (tensor_of N C (H' * s0) (W' * s1) f)) [0..<s1]) [0..<s0])).
               size0 t = N \<and> size2 t = H' \<and> size3 t = W')"
proof -
  from p(5,6) have "0 < s0 * s1" by simp
  then have "[0..<s0 * s1] \<noteq> []" by simp
  then show ?thesis
    unfolding subsamples_tensor_of [OF p(5,6)] using p(1-4) by (auto simp: tensor_of_sizes)
qed

lemma th_chunk2_one:
  "size1 t = 1 \<Longrightarrow> th_chunk2 t = [t]"
  by (simp add: th_chunk2_def)

lemma th_chunk2_tensor_of:
  assumes "0 < N" and "0 < H" and "0 < W" and "0 < a" and "0 < b" and "(a + b + 1) div 2 = a"
  shows "th_chunk2 (tensor_of N (a + b) H W f)
           = [tensor_of N a H W f, tensor_of N b H W (\<lambda>n c. f n (a + c))]"
proof -
  from assms have s1: "size1 (tensor_of N (a + b) H W f) = a + b" by (simp add: tensor_of_sizes)
  have r1: "chans_range 0 a (tensor_of N (a + b) H W f) = tensor_of N a H W f"
    using chans_range_tensor_of [of a "a + b" 0 N H W f] by simp
  have r2: "chans_range a (a + b) (tensor_of N (a + b) H W f) = tensor_of N b H W (\<lambda>n c. f n (a + c))"
    using chans_range_tensor_of [of "a + b" "a + b" a N H W f] by simp
  from assms(5) have "\<not> a + b \<le> a" by simp
  then show ?thesis
    unfolding th_chunk2_def s1 Let_def by (simp only: assms(6) if_False r1 r2)
qed

lemma invert_stage_splitter:
  assumes "s0 * s1 \<noteq> 0"
    and "(if chunk_chans_first \<and> 1 < size1 y div (s0 * s1) then th_chunk2 y else [y]) = chan_features"
    and "map_err (invert_piece (s0, s1)) chan_features = Inr pieces"
  shows "invert_stage (SubsampleSplitter (s0, s1) chunk_chans_first) y = cat_chans pieces"
  using assms(1) by (simp add: Let_def assms(2) assms(3) del: One_nat_def)

lemma splitter_roundtrip:
  assumes x: "has_shape N C H W x" and s: "0 < s0" "0 < s1"
    and dv: "s0 dvd H" "s1 dvd W"
    and ch: "chunk_chans_first \<longrightarrow> even C \<or> C = 1 \<or> s0 * s1 = 1"
  shows "\<exists>y. forward_stage (SubsampleSplitter (s0, s1) chunk_chans_first) x = Inr y
           \<and> has_shape N (s0 * s1 * C) (H div s0) (W div s1) y
           \<and> invert_stage (SubsampleSplitter (s0, s1) chunk_chans_first) y = Inr x"
proof -
  from has_shape_pos [OF x] have p: "0 < N" "0 < C" "0 < H" "0 < W" by simp_all
  define H' where "H' = H div s0"
  define W' where "W' = W div s1"
  from dv have HW: "H = H' * s0" "W = W' * s1" by (simp_all add: H'_def W'_def)
  with p s have p': "0 < H'" "0 < W'" by (simp_all add: zero_less_mult_iff)
  define f where "f = (\<lambda>n c h w. x ! n ! c ! h ! w)"
  have xe: "x = tensor_of N C (H' * s0) (W' * s1) f"
    unfolding f_def HW [symmetric] using x by (rule has_shape_eq_tensor_of)
  have s1x: "size1 x = C" using x by (rule has_shape_sizes)
  from s have S: "0 < s0 * s1" "s0 * s1 \<noteq> 0" by simp_all
  let ?subs = "\<lambda>t. concat (map (\<lambda>i. map (\<lambda>j. subsample i j s0 s1 t) [0..<s1]) [0..<s0])"
  show ?thesis
  proof (cases "chunk_chans_first \<and> 1 < C")
    case False
    then have xs: "(if chunk_chans_first then th_chunk2 x else [x]) = [x]"
      using p(2) s1x by (cases "C = 1") (auto simp: th_chunk2_one)
    define y where "y = tensor_of N (s0 * s1 * C) H' W' (piece_entries s0 s1 C f)"
    have "cat_chans (?subs x) = Inr y"
      unfolding y_def xe using p(1,2) p' s by (rule forward_piece)
    then have fwd: "forward_stage (SubsampleSplitter (s0, s1) chunk_chans_first) x = Inr y"
      by (simp add: xs Let_def)
    have pc: "0 < s0 * s1 * C" using S p(2) by simp
    have ys: "has_shape N (s0 * s1 * C) H' W' y"
      unfolding y_def using p(1) pc p' by (rule has_shape_tensor_of)
    have s1y: "size1 y = s0 * s1 * C" using ys by (rule has_shape_sizes)
    from S have nall: "s0 * s1 * C div (s0 * s1) = C" by simp
    from False have cf: "(if chunk_chans_first \<and> 1 < size1 y div (s0 * s1) then th_chunk2 y else [y]) = [y]"
      unfolding s1y nall by (rule if_not_P)
    have ip: "invert_piece (s0, s1) y = Inr x"
      unfolding y_def xe using p(1,2) p' s by (rule piece_roundtrip)
    have cx: "cat_chans [x] = Inr x" using x by (rule cat_chans_one)
    have "map_err (invert_piece (s0, s1)) [y] = Inr [x]" by (simp add: ip)
    with S(2) cf have "invert_stage (SubsampleSplitter (s0, s1) chunk_chans_first) y = cat_chans [x]"
      by (rule invert_stage_splitter)
    with cx have inv: "invert_stage (SubsampleSplitter (s0, s1) chunk_chans_first) y = Inr x"
      by simp
    from fwd ys inv show ?thesis unfolding H'_def W'_def by blast
  next
    case True
    then have chunk: "chunk_chans_first" and C2: "1 < C" by simp_all
    define a where "a = (C + 1) div 2"
    define b where "b = C - a"
    from C2 have ab: "C = a + b" and a: "0 < a" and b: "0 < b" by (auto simp: a_def b_def)
    have "(C + 1) div 2 = a" by (simp only: a_def)
    then have split_x: "(a + b + 1) div 2 = a" by (simp only: ab [symmetric])
    from ch chunk C2 have "even C \<or> s0 * s1 = 1" by auto
    then have split_y: "(s0 * s1 * a + s0 * s1 * b + 1) div 2 = s0 * s1 * a"
    proof
      assume "even C"
      then obtain m where m: "C = 2 * m" by (elim evenE)
      then have "a = m" by (simp add: a_def)
      with m ab have "b = m" by simp
      with \<open>a = m\<close> show ?thesis by simp
    next
      assume "s0 * s1 = 1"
      then show ?thesis using split_x by simp
    qed
    define xa where "xa = tensor_of N a (H' * s0) (W' * s1) f"
    define xb where "xb = tensor_of N b (H' * s0) (W' * s1) (\<lambda>n c. f n (a + c))"
    have xs: "th_chunk2 x = [xa, xb]"
      unfolding xe ab xa_def xb_def using p(1) p(3,4) [unfolded HW] a b split_x
      by (rule th_chunk2_tensor_of)
    define ya where "ya = tensor_of N (s0 * s1 * a) H' W' (piece_entries s0 s1 a f)"
    define yb where "yb = tensor_of N (s0 * s1 * b) H' W' (piece_entries s0 s1 b (\<lambda>n c. f n (a + c)))"
    have ca: "cat_chans (?subs xa) = Inr ya"
      unfolding ya_def xa_def using p(1) a p' s by (rule forward_piece)
    have cb: "cat_chans (?subs xb) = Inr yb"
      unfolding yb_def xb_def using p(1) b p' s by (rule forward_piece)
    have pa: "0 < s0 * s1 * a" and pb: "0 < s0 * s1 * b" using S a b by simp_all
    have sza: "size0 ya = N \<and> size2 ya = H' \<and> size3 ya = W'"
      unfolding ya_def using p(1) pa p' by (simp add: tensor_of_sizes)
    have szb: "size0 yb = N \<and> size2 yb = H' \<and> size3 yb = W'"
      unfolding yb_def using p(1) pb p' by (simp add: tensor_of_sizes)
    have nea: "?subs xa \<noteq> []" and sa: "\<forall>t \<in> set (?subs xa). size0 t = N \<and> size2 t = H' \<and> size3 t = W'"
      unfolding xa_def using subsamples_nonempty_sizes [OF p(1) a p' s, of f] by simp_all
    have neb: "?subs xb \<noteq> []" and sb: "\<forall>t \<in> set (?subs xb). size0 t = N \<and> size2 t = H' \<and> size3 t = W'"
      unfolding xb_def using subsamples_nonempty_sizes [OF p(1) b p' s, of "\<lambda>n c. f n (a + c)"] by simp_all
    from sa sb have sab: "\<forall>t \<in> set (?subs xa) \<union> set (?subs xb). size0 t = N \<and> size2 t = H' \<and> size3 t = W'"
      by blast
    define yf where "yf = (\<lambda>n c. if c < s0 * s1 * a then piece_entries s0 s1 a f n c
                                  else piece_entries s0 s1 b (\<lambda>n c. f n (a + c)) n (c - s0 * s1 * a))"
    define y where "y = tensor_of N (s0 * s1 * a + s0 * s1 * b) H' W' yf"
    have cat2: "cat_chans [ya, yb] = Inr y"
      unfolding ya_def yb_def y_def yf_def using p(1) pa pb p' by (rule cat_chans_two)
    have "cat_chans (?subs xa @ ?subs xb) = cat_chans [ya, yb]"
      using nea neb sab ca cb sza szb by (rule cat_chans_append)
    then have fwd: "forward_stage (SubsampleSplitter (s0, s1) chunk_chans_first) x = Inr y"
      using chunk by (simp add: xs Let_def cat2)
    have SC: "s0 * s1 * a + s0 * s1 * b = s0 * s1 * C" unfolding ab by (simp add: algebra_simps)
    have pc: "0 < s0 * s1 * a + s0 * s1 * b" using pa by simp
    have ys': "has_shape N (s0 * s1 * a + s0 * s1 * b) H' W' y"
      unfolding y_def using p(1) pc p' by (rule has_shape_tensor_of)
    then have ys: "has_shape N (s0 * s1 * C) H' W' y" by (simp only: SC)
    have s1y: "size1 y = s0 * s1 * C" using ys by (rule has_shape_sizes)
    from S have nall: "s0 * s1 * C div (s0 * s1) = C" by simp
    have chy: "th_chunk2 y = [ya, yb]"
    proof -
      have "th_chunk2 y = [tensor_of N (s0 * s1 * a) H' W' yf,
                           tensor_of N (s0 * s1 * b) H' W' (\<lambda>n c. yf n (s0 * s1 * a + c))]"
        unfolding y_def using p(1) p' pa pb split_y by (rule th_chunk2_tensor_of)
      moreover have "tensor_of N (s0 * s1 * a) H' W' yf = ya"
        unfolding ya_def by (rule tensor_of_cong) (simp add: yf_def)
      moreover have "tensor_of N (s0 * s1 * b) H' W' (\<lambda>n c. yf n (s0 * s1 * a + c)) = yb"
        unfolding yb_def by (rule tensor_of_cong) (simp add: yf_def)
      ultimately show ?thesis by simp
    qed
    from chunk C2 have "chunk_chans_first \<and> 1 < C" by simp
    then have cf: "(if chunk_chans_first \<and> 1 < size1 y div (s0 * s1) then th_chunk2 y else [y])
                              = [ya, yb]"
      unfolding s1y nall chy [symmetric] by (rule if_P)
    have ipa: "invert_piece (s0, s1) ya = Inr xa"
      unfolding ya_def xa_def using p(1) a p' s by (rule piece_roundtrip)
    have ipb: "invert_piece (s0, s1) yb = Inr xb"
      unfolding yb_def xb_def using p(1) b p' s by (rule piece_roundtrip)
    have catx: "cat_chans [xa, xb] = Inr x"
    proof -
      have "cat_chans [xa, xb]
              = Inr (tensor_of N (a + b) (H' * s0) (W' * s1)
                       (\<lambda>n c. if c < a then f n c else f n (a + (c - a))))"
        unfolding xa_def xb_def using p(1) a b p(3,4) [unfolded HW] by (rule cat_chans_two)
      also have "tensor_of N (a + b) (H' * s0) (W' * s1)
                       (\<lambda>n c. if c < a then f n c else f n (a + (c - a))) = x"
        unfolding xe ab by (rule tensor_of_cong) simp
      finally show ?thesis .
    qed
    have "map_err (invert_piece (s0, s1)) [ya, yb] = Inr [xa, xb]" by (simp add: ipa ipb)
    with S(2) cf have "invert_stage (SubsampleSplitter (s0, s1) chunk_chans_first) y = cat_chans [xa, xb]"
      by (rule invert_stage_splitter)
    with catx have inv: "invert_stage (SubsampleSplitter (s0, s1) chunk_chans_first) y = Inr x"
      by simp
    from fwd ys inv show ?thesis unfolding H'_def W'_def by blast
  qed
qed

subsection \<open>Pipelines\<close>

lemma invert_modules_append:
  "invert_modules (ms @ ms') y =
     (case invert_modules ms y of Inl e \<Rightarrow> Inl e | Inr z \<Rightarrow> invert_modules ms' z)"
  by (induction ms arbitrary: y) (simp_all split: sum.splits)

lemma forward_invert_modules:
  assumes "has_shape N C H W x" and "compatible pipeline N C H W"
  shows "\<exists>y. forward pipeline x = Inr y \<and> invert_modules (rev pipeline) y = Inr x"
  using assms
proof (induction pipeline arbitrary: x C H W)
  case Nil
  then show ?case by simp
next
  case (Cons st rest)
  have "\<exists>C' H' W' y1. forward_stage st x = Inr y1 \<and> has_shape N C' H' W' y1
          \<and> invert_stage st y1 = Inr x \<and> compatible rest N C' H' W'"
  proof (cases st)
    case (ReversibleBlock F G)
    with Cons.prems(2) have c: "even C" "keeps_shape N (C div 2) H W F"
      "keeps_shape N (C div 2) H W G" "compatible rest N C H W" by simp_all
    from block_roundtrip [OF Cons.prems(1) c(1-3)] c(4) show ?thesis
      unfolding ReversibleBlock by blast
  next
    case (SubsampleSplitter stride chunk_chans_first)
    obtain s0 s1 where st: "stride = (s0, s1)" by (cases stride) auto
    with Cons.prems(2) SubsampleSplitter
    have c: "0 < s0" "0 < s1" "s0 dvd H" "s1 dvd W"
      "chunk_chans_first \<longrightarrow> even C \<or> C = 1 \<or> s0 * s1 = 1"
      "compatible rest N (s0 * s1 * C) (H div s0) (W div s1)" by simp_all
    from splitter_roundtrip [OF Cons.prems(1) c(1-5)] c(6) show ?thesis
      unfolding SubsampleSplitter st by blast
  qed
  then obtain C' H' W' y1 where f1: "forward_stage st x = Inr y1"
    and s1: "has_shape N C' H' W' y1" and i1: "invert_stage st y1 = Inr x"
    and c1: "compatible rest N C' H' W'" by blast
  from Cons.IH [OF s1 c1] obtain y where f2: "forward rest y1 = Inr y"
    and i2: "invert_modules (rev rest) y = Inr y1" by blast
  have "forward (st # rest) x = Inr y" by (simp add: f1 f2)
  moreover have "invert_modules (rev (st # rest)) y = Inr x"
    by (simp add: invert_modules_append i2 i1)
  ultimately show ?case by blast
qed

text \<open>
  The round trip where it holds. For every pipeline of \<^verbatim>\<open>ReversibleBlock\<close> and \<^verbatim>\<open>SubsampleSplitter\<close> stages and every
  input whose shape fits it (even channel counts into the blocks, with \<open>F\<close> and \<open>G\<close>
  keeping the shape of a half; spatial sizes divisible by the strides; and an even
  channel count, a single channel or a stride product of 1 wherever the channels are
  chunked first), \<^verbatim>\<open>forward\<close> returns and \<^verbatim>\<open>invert\<close> gives the input back exactly.
\<close>

lemma invert_forward_roundtrip:
  assumes "has_shape N C H W x" and "compatible pipeline N C H W"
  shows "\<exists>y. forward pipeline x = Inr y \<and> invert (Sequential pipeline) y = Inr x"
  using forward_invert_modules [OF assms] by (simp add: invert_def)

lemma invert_forward_roundtrip_single:
  assumes "has_shape N C H W x" and "compatible [st] N C H W"
  shows "\<exists>y. forward [st] x = Inr y \<and> invert (Single st) y = Inr x"
  using forward_invert_modules [OF assms] by (simp add: invert_def)

lemma keeps_shape_map:
  "keeps_shape N C H W (\<lambda>t. map (map (map (map g))) t)"
  by (simp add: keeps_shape_def has_shape_def list_all_iff)

text \<open>
  The round trip at work: a splitter of stride \<open>(1, 2)\<close> that chunks two channels,
  followed by a block with \<open>F\<close> squaring every entry and \<open>G\<close> returning zeros.
\<close>

lemma invert_forward_roundtrip_example:
  "forward [SubsampleSplitter (1, 2) True,
            ReversibleBlock (\<lambda>t. map (map (map (map (\<lambda>v. v * v)))) t)
                            (\<lambda>t. map (map (map (map (\<lambda>v. 0)))) t)]
     [[[[1, 2]], [[3, 4]]]]
     = Inr [[[[4]], [[8]], [[1]], [[2]]]]
   \<and> invert (Sequential [SubsampleSplitter (1, 2) True,
            ReversibleBlock (\<lambda>t. map (map (map (map (\<lambda>v. v * v)))) t)
                            (\<lambda>t. map (map (map (map (\<lambda>v. 0)))) t)])
       [[[[4]], [[8]], [[1]], [[2]]]]
     = Inr [[[[1, 2]], [[3, 4]]]]"
proof -
  let ?F = "\<lambda>t :: tensor. map (map (map (map (\<lambda>v. v * v)))) t"
  let ?G = "\<lambda>t :: tensor. map (map (map (map (\<lambda>v. 0 :: real)))) t"
  let ?p = "[SubsampleSplitter (1, 2) True, ReversibleBlock ?F ?G]"
  let ?x = "[[[[1, 2]], [[3, 4]]]] :: tensor"
  have s: "has_shape 1 2 1 2 ?x" by (simp add: has_shape_def)
  have c: "compatible ?p 1 2 1 2" by (simp add: keeps_shape_map)
  have f: "forward ?p ?x = Inr [[[[4]], [[8]], [[1]], [[2]]]]" by code_simp
  from invert_forward_roundtrip [OF s c] f show ?thesis by simp
qed

text \<open>
  A single block with \<open>F\<close> and \<open>G\<close> returning zeros swaps the two halves of the channels,
  and \<^verbatim>\<open>invert\<close> swaps them back.
\<close>

lemma zero_block_example:
  "forward [ReversibleBlock (\<lambda>t. map (map (map (map (\<lambda>v. 0)))) t)
                            (\<lambda>t. map (map (map (map (\<lambda>v. 0)))) t)]
     [[[[1]], [[2]], [[3]], [[4]]]] = Inr [[[[3]], [[4]], [[1]], [[2]]]]
   \<and> invert (Single (ReversibleBlock (\<lambda>t. map (map (map (map (\<lambda>v. 0)))) t)
                                      (\<lambda>t. map (map (map (map (\<lambda>v. 0)))) t)))
       [[[[3]], [[4]], [[1]], [[2]]]] = Inr [[[[1]], [[2]], [[3]], [[4]]]]"
  by code_simp

text \<open>
  Claim C1, at a failing input. An input of three channels of size \<open>2 \<times> 2\<close> through a
  \<^verbatim>\<open>SubsampleSplitter\<close> of stride 2 that chunks the channels first: \<^verbatim>\<open>forward\<close> splits
  the channels into two and one and returns twelve channels; \<^verbatim>\<open>invert\<close> cuts the twelve
  into six and six and returns two channels, not the three of the input.
\<close>

theorem invert_forward_three_channels:
  "forward [SubsampleSplitter (2, 2) True]
     [[[[1, 2], [3, 4]], [[5, 6], [7, 8]], [[9, 10], [11, 12]]]]
     = Inr [[[[1]], [[5]], [[2]], [[6]], [[3]], [[7]], [[4]], [[8]],
             [[9]], [[10]], [[11]], [[12]]]]
   \<and> invert (Sequential [SubsampleSplitter (2, 2) True])
       [[[[1]], [[5]], [[2]], [[6]], [[3]], [[7]], [[4]], [[8]],
         [[9]], [[10]], [[11]], [[12]]]]
     = Inr [[[[1, 5], [2, 6]], [[4, 8], [9, 10]]]]"
  by code_simp

end
